theory Spec2Isabelle
  imports Complex_Main
begin

section \<open>Strings and regular expressions\<close>

text \<open>
  A JavaScript string is modelled as a \<open>string\<close> of ASCII characters. The classes
  \<open>\d\<close> and \<open>\s\<close>, \<open>trim\<close>, \<open>toLowerCase\<close> and \<open>toUpperCase\<close> are given on ASCII.
\<close>

definition digitChars :: string where
  "digitChars = ''0123456789''"

definition whitespaceChars :: string where
  "whitespaceChars = [CHR '' '', CHR 0x09, CHR 0x0A, CHR 0x0B, CHR 0x0C, CHR 0x0D]"

definition upperChars :: string where
  "upperChars = ''ABCDEFGHIJKLMNOPQRSTUVWXYZ''"

definition lowerChars :: string where
  "lowerChars = ''abcdefghijklmnopqrstuvwxyz''"

definition toLowerChar :: "char \<Rightarrow> char" where
  "toLowerChar c = (case map_of (zip upperChars lowerChars) c of Some l \<Rightarrow> l | None \<Rightarrow> c)"

definition toUpperChar :: "char \<Rightarrow> char" where
  "toUpperChar c = (case map_of (zip lowerChars upperChars) c of Some u \<Rightarrow> u | None \<Rightarrow> c)"

definition toLowerCase :: "string \<Rightarrow> string" where
  "toLowerCase s = map toLowerChar s"

definition toUpperCase :: "string \<Rightarrow> string" where
  "toUpperCase s = map toUpperChar s"

definition isSpace :: "char \<Rightarrow> bool" where
  "isSpace c = (c \<in> set whitespaceChars)"

definition trim :: "string \<Rightarrow> string" where
  "trim s = rev (dropWhile isSpace (rev (dropWhile isSpace s)))"

fun isPrefixOf :: "string \<Rightarrow> string \<Rightarrow> bool" where
  "isPrefixOf [] s = True"
| "isPrefixOf (k # ks) [] = False"
| "isPrefixOf (k # ks) (c # cs) = (k = c \<and> isPrefixOf ks cs)"

text \<open>\<open>s.includes(k)\<close>: \<open>k\<close> occurs in \<open>s\<close> as a substring.\<close>

fun includesStr :: "string \<Rightarrow> string \<Rightarrow> bool" where
  "includesStr [] k = (k = [])"
| "includesStr (c # cs) k = (isPrefixOf k (c # cs) \<or> includesStr cs k)"

text \<open>\<open>xs.join(' ')\<close>\<close>

fun joinSpace :: "string list \<Rightarrow> string" where
  "joinSpace [] = []"
| "joinSpace [x] = x"
| "joinSpace (x # y # ys) = x @ '' '' @ joinSpace (y # ys)"

text \<open>
  \<open>Number.prototype.toString\<close> on an integer, and \<open>padStart(2, '0')\<close>.
\<close>

definition digitChar :: "nat \<Rightarrow> char" where
  "digitChar n = digitChars ! (n mod 10)"

fun digitsOf :: "nat \<Rightarrow> string" where
  "digitsOf n = (if n < 10 then [digitChar n] else digitsOf (n div 10) @ [digitChar n])"

declare digitsOf.simps [simp del]

definition numToString :: "int \<Rightarrow> string" where
  "numToString i = (if i < 0 then CHR ''-'' # digitsOf (nat (- i)) else digitsOf (nat i))"

definition padStart2 :: "string \<Rightarrow> string" where
  "padStart2 s = replicate (2 - length s) CHR ''0'' @ s"

text \<open>
  \<open>parseInt(s)\<close>: leading white space is skipped, an optional sign is read, then the
  longest run of decimal digits; \<open>None\<close> is \<open>NaN\<close> (no digit there).
\<close>

definition digitVal :: "char \<Rightarrow> int" where
  "digitVal c = (case map_of (zip digitChars [0, 1, 2, 3, 4, 5, 6, 7, 8, 9]) c of
                   Some v \<Rightarrow> v | None \<Rightarrow> 0)"

definition digitsVal :: "string \<Rightarrow> int" where
  "digitsVal ds = foldl (\<lambda>acc c. 10 * acc + digitVal c) 0 ds"

definition isDigit :: "char \<Rightarrow> bool" where
  "isDigit c = (c \<in> set digitChars)"

definition parseInt :: "string \<Rightarrow> int option" where
  "parseInt s =
     (case dropWhile isSpace s of
        [] \<Rightarrow> None
      | c # cs \<Rightarrow>
          (if c = CHR ''-'' then
             (case takeWhile isDigit cs of [] \<Rightarrow> None | ds \<Rightarrow> Some (- digitsVal ds))
           else if c = CHR ''+'' then
             (case takeWhile isDigit cs of [] \<Rightarrow> None | ds \<Rightarrow> Some (digitsVal ds))
           else
             (case takeWhile isDigit (c # cs) of [] \<Rightarrow> None | ds \<Rightarrow> Some (digitsVal ds))))"

subsection \<open>A backtracking matcher for the regular expressions of the source\<close>

text \<open>
  The regular expressions of \<open>activities.ts\<close> use character classes, sequence,
  alternation, the greedy optional \<open>r?\<close>, the greedy star and plus on a character class
  (\<open>\s*\<close>, \<open>\s+\<close>, \<open>.*\<close>), capture groups, one negative lookahead and \<open>$\<close>. The matcher
  tries alternatives in JavaScript's order (left alternative first, greedy repetition
  first) and backtracks into them; its continuation is the list of frames still to be
  matched. \<open>EndGrp n s0\<close> closes capture group \<open>n\<close>, opened when the rest of the input
  was \<open>s0\<close>. The flag \<open>i\<close> is written into the classes (\<open>ci\<close>).
\<close>

datatype cls = In string | NotIn string

fun inCls :: "cls \<Rightarrow> char \<Rightarrow> bool" where
  "inCls (In cs) c = (c \<in> set cs)"
| "inCls (NotIn cs) c = (c \<notin> set cs)"

datatype re =
    C cls
  | Eps
  | Seq re re
  | Alt re re
  | Opt re
  | StarC cls
  | Grp nat re
  | NLook re
  | Eos

datatype frame = R re | EndGrp nat string

type_synonym caps = "(nat \<times> string) list"

fun wt :: "re \<Rightarrow> nat" where
  "wt (C _) = 1"
| "wt Eps = 1"
| "wt (Seq a b) = Suc (wt a + wt b)"
| "wt (Alt a b) = Suc (wt a + wt b)"
| "wt (Opt a) = Suc (Suc (wt a))"
| "wt (StarC _) = 1"
| "wt (Grp n a) = Suc (Suc (wt a))"
| "wt (NLook a) = Suc (wt a)"
| "wt Eos = 1"

fun fwt :: "frame \<Rightarrow> nat" where
  "fwt (R r) = wt r"
| "fwt (EndGrp _ _) = 1"

function matchHere :: "frame list \<Rightarrow> string \<Rightarrow> caps \<Rightarrow> (caps \<times> string) option" where
  "matchHere [] s c = Some (c, s)"
| "matchHere (R (C k) # fs) s c =
     (case s of [] \<Rightarrow> None | x # xs \<Rightarrow> if inCls k x then matchHere fs xs c else None)"
| "matchHere (R Eps # fs) s c = matchHere fs s c"
| "matchHere (R (Seq a b) # fs) s c = matchHere (R a # R b # fs) s c"
| "matchHere (R (Alt a b) # fs) s c =
     (case matchHere (R a # fs) s c of Some r \<Rightarrow> Some r | None \<Rightarrow> matchHere (R b # fs) s c)"
| "matchHere (R (Opt a) # fs) s c =
     (case matchHere (R a # fs) s c of Some r \<Rightarrow> Some r | None \<Rightarrow> matchHere fs s c)"
| "matchHere (R (StarC k) # fs) s c =
     (case s of
        [] \<Rightarrow> matchHere fs s c
      | x # xs \<Rightarrow>
          if inCls k x
          then (case matchHere (R (StarC k) # fs) xs c of
                  Some r \<Rightarrow> Some r
                | None \<Rightarrow> matchHere fs s c)
          else matchHere fs s c)"
| "matchHere (R (Grp n a) # fs) s c = matchHere (R a # EndGrp n s # fs) s c"
| "matchHere (EndGrp n s0 # fs) s c =
     matchHere fs s ((n, take (length s0 - length s) s0) # c)"
| "matchHere (R (NLook a) # fs) s c =
     (case matchHere [R a] s c of Some r \<Rightarrow> None | None \<Rightarrow> matchHere fs s c)"
| "matchHere (R Eos # fs) s c = (if s = [] then matchHere fs s c else None)"
  by pat_completeness auto
termination
  by (relation "measures [\<lambda>(fs, s, c). length s, \<lambda>(fs, s, c). sum_list (map fwt fs)]") auto

text \<open>
  An unanchored match: the leftmost start at which the expression matches. The result
  is the text before the match, the captures and the text after the match.
\<close>

fun reSearch :: "re \<Rightarrow> string \<Rightarrow> string \<Rightarrow> (string \<times> caps \<times> string) option" where
  "reSearch r pre s =
     (case matchHere [R r] s [] of
        Some (c, rest) \<Rightarrow> Some (pre, c, rest)
      | None \<Rightarrow> (case s of [] \<Rightarrow> None | x # xs \<Rightarrow> reSearch r (pre @ [x]) xs))"

text \<open>\<open>r.test(s)\<close>, \<open>s.match(r)\<close> (the captures) and \<open>s.replace(r, '')\<close>.\<close>

definition reTest :: "re \<Rightarrow> string \<Rightarrow> bool" where
  "reTest r s = (case reSearch r [] s of Some m \<Rightarrow> True | None \<Rightarrow> False)"

definition reMatch :: "re \<Rightarrow> string \<Rightarrow> caps option" where
  "reMatch r s = (case reSearch r [] s of Some (pre, c, rest) \<Rightarrow> Some c | None \<Rightarrow> None)"

definition replaceEmpty :: "re \<Rightarrow> string \<Rightarrow> string" where
  "replaceEmpty r s = (case reSearch r [] s of Some (pre, c, rest) \<Rightarrow> pre @ rest | None \<Rightarrow> s)"

text \<open>The text of capture group \<open>n\<close>; every group read by the source takes part in its match.\<close>

definition grp :: "caps \<Rightarrow> nat \<Rightarrow> string" where
  "grp c n = (case map_of c n of Some s \<Rightarrow> s | None \<Rightarrow> [])"

text \<open>
  \<open>s.split(r)\<close> for a separator that never matches the empty string: at each position
  the separator is tried; where it matches, the piece read so far is closed and the scan
  continues after the match.
\<close>

fun splitRe :: "re \<Rightarrow> string \<Rightarrow> string \<Rightarrow> string list" where
  "splitRe r cur [] = [cur]"
| "splitRe r cur (x # xs) =
     (case matchHere [R r] (x # xs) [] of
        Some (c, rest) \<Rightarrow>
          if length rest < length (x # xs) then cur # splitRe r [] rest
          else splitRe r (cur @ [x]) xs
      | None \<Rightarrow> splitRe r (cur @ [x]) xs)"

definition seqs :: "re list \<Rightarrow> re" where
  "seqs rs = foldr Seq rs Eps"

fun alts :: "re list \<Rightarrow> re" where
  "alts [] = Eps"
| "alts [r] = r"
| "alts (r # rs) = Alt r (alts rs)"

definition lit :: "string \<Rightarrow> re" where
  "lit s = seqs (map (\<lambda>c. C (In [c])) s)"

text \<open>A literal under the flag \<open>i\<close>.\<close>

definition ci :: "string \<Rightarrow> re" where
  "ci s = seqs (map (\<lambda>c. C (In [toLowerChar c, toUpperChar c])) s)"

definition reDigit :: re where
  "reDigit = C (In digitChars)"

text \<open>\<open>\d{1,2}\<close>\<close>

definition reDigit12 :: re where
  "reDigit12 = Seq reDigit (Opt reDigit)"

definition wsCls :: cls where
  "wsCls = In whitespaceChars"

text \<open>\<open>.\<close> matches every character but a line terminator.\<close>

definition dotCls :: cls where
  "dotCls = NotIn [CHR 0x0A, CHR 0x0D]"

subsection \<open>Capture groups that begin with a digit\<close>

text \<open>
  \<open>digitLed r\<close>: every match of \<open>r\<close> begins with a decimal digit. \<open>wfRe N r\<close>: the body of
  every capture group of \<open>r\<close> numbered in \<open>N\<close> is digit-led. \<open>mandRe n r\<close>: every match of
  \<open>r\<close> goes through capture group \<open>n\<close>.
\<close>

fun digitLed :: "re \<Rightarrow> bool" where
  "digitLed (C (In cs)) = (set cs \<subseteq> set digitChars)"
| "digitLed (Seq a b) = digitLed a"
| "digitLed (Alt a b) = (digitLed a \<and> digitLed b)"
| "digitLed (Grp n a) = digitLed a"
| "digitLed r = False"

fun wfRe :: "nat set \<Rightarrow> re \<Rightarrow> bool" where
  "wfRe N (Seq a b) = (wfRe N a \<and> wfRe N b)"
| "wfRe N (Alt a b) = (wfRe N a \<and> wfRe N b)"
| "wfRe N (Opt a) = wfRe N a"
| "wfRe N (Grp n a) = ((n \<in> N \<longrightarrow> digitLed a) \<and> wfRe N a)"
| "wfRe N r = True"

fun mandRe :: "nat \<Rightarrow> re \<Rightarrow> bool" where
  "mandRe n (Seq a b) = (mandRe n a \<or> mandRe n b)"
| "mandRe n (Alt a b) = (mandRe n a \<and> mandRe n b)"
| "mandRe n (Grp m a) = (m = n \<or> mandRe n a)"
| "mandRe n r = False"

text \<open>
  The frames still to be matched against \<open>s\<close>: a group of \<open>N\<close> that is still open was
  opened at a digit that has been read, or is opened here with a digit-led frame first
  (\<open>led\<close>).
\<close>

fun pend :: "nat set \<Rightarrow> string \<Rightarrow> bool \<Rightarrow> frame list \<Rightarrow> bool" where
  "pend N s led [] = True"
| "pend N s led (R r # fs) = (wfRe N r \<and> pend N s led fs)"
| "pend N s led (EndGrp n s0 # fs) =
     ((n \<in> N \<longrightarrow> (length s < length s0 \<and> s0 \<noteq> [] \<and> isDigit (hd s0)) \<or> (led \<and> s0 = s))
      \<and> pend N s led fs)"

fun headLed :: "frame list \<Rightarrow> bool" where
  "headLed (R r # fs) = digitLed r"
| "headLed fs = False"

fun mandFrame :: "nat \<Rightarrow> frame \<Rightarrow> bool" where
  "mandFrame n (R r) = mandRe n r"
| "mandFrame n (EndGrp m s0) = (m = n)"

text \<open>The text of every group of \<open>N\<close> that was captured begins with a digit.\<close>

definition capsOk :: "nat set \<Rightarrow> caps \<Rightarrow> bool" where
  "capsOk N c = (\<forall>n \<in> N. \<forall>t. map_of c n = Some t \<longrightarrow> t \<noteq> [] \<and> isDigit (hd t))"

section \<open>Time utilities (src/lib/activities.ts)\<close>

text \<open>
  The four expressions of \<open>parseTimeToMinutes\<close>:
  \<open>/(\d{1,2}):(\d{2})\s*(AM|PM)/i\<close>, \<open>/(\d{1,2})\s*(AM|PM)/i\<close>,
  \<open>/(\d{1,2}):(\d{2})(?!\s*[AP])/i\<close> and \<open>/(?:at\s+)?(\d{1,2})(?:\s|$|,)/i\<close>.
\<close>

definition reStandard :: re where
  "reStandard =
     seqs [Grp 1 reDigit12, lit '':'', Grp 2 (Seq reDigit reDigit), StarC wsCls, Grp 3 (Alt (ci ''AM'') (ci ''PM''))]"

definition reSimple :: re where
  "reSimple = seqs [Grp 1 reDigit12, StarC wsCls, Grp 2 (Alt (ci ''AM'') (ci ''PM''))]"

definition re24 :: re where
  "re24 =
     seqs [Grp 1 reDigit12, lit '':'', Grp 2 (Seq reDigit reDigit), NLook (seqs [StarC wsCls, C (In ''APap'')])]"

definition reHour :: re where
  "reHour =
     seqs [Opt (seqs [ci ''at'', C wsCls, StarC wsCls]), Grp 1 reDigit12, alts [C wsCls, Eos, lit '','']]"

text \<open>
  \<open>parseInt\<close> of a capture of \<open>\d{1,2}\<close> or \<open>\d{2}\<close>: the capture begins with a digit,
  so the result is never \<open>NaN\<close> and the second branch below is never taken (lemma
  \<open>parseTimeToMinutes_never_NaN\<close>).
\<close>

definition parseIntDigits :: "string \<Rightarrow> int" where
  "parseIntDigits s = (case parseInt s of Some n \<Rightarrow> n | None \<Rightarrow> 0)"

definition to24 :: "int \<Rightarrow> bool \<Rightarrow> int" where
  "to24 hours isPM =
     (if isPM \<and> hours \<noteq> 12 then hours + 12
      else if \<not> isPM \<and> hours = 12 then 0
      else hours)"

definition parseTimeToMinutes :: "string \<Rightarrow> int" where
  "parseTimeToMinutes time =
     (case reMatch reStandard time of
        Some m \<Rightarrow>
          to24 (parseIntDigits (grp m 1)) (toUpperCase (grp m 3) = ''PM'') * 60
            + parseIntDigits (grp m 2)
      | None \<Rightarrow>
     (case reMatch reSimple time of
        Some m \<Rightarrow> to24 (parseIntDigits (grp m 1)) (toUpperCase (grp m 2) = ''PM'') * 60
      | None \<Rightarrow>
     (case reMatch re24 time of
        Some m \<Rightarrow> parseIntDigits (grp m 1) * 60 + parseIntDigits (grp m 2)
      | None \<Rightarrow>
     (case reMatch reHour time of
        Some m \<Rightarrow>
          (if parseIntDigits (grp m 1) \<ge> 1 \<and> parseIntDigits (grp m 1) \<le> 6
           then (parseIntDigits (grp m 1) + 12) * 60
           else parseIntDigits (grp m 1) * 60)
      | None \<Rightarrow> 0))))"

text \<open>JavaScript's \<open>%\<close> on integers with a positive divisor: the sign follows the dividend.\<close>

definition jsRem :: "int \<Rightarrow> int \<Rightarrow> int" where
  "jsRem a b = (if a < 0 then - ((- a) mod b) else a mod b)"

definition minutesToTimeString :: "int \<Rightarrow> string" where
  "minutesToTimeString mins =
     numToString (if mins div 60 > 12 then mins div 60 - 12
                  else if mins div 60 = 0 then 12 else mins div 60)
     @ '':'' @ padStart2 (numToString (jsRem mins 60)) @ '' ''
     @ (if mins div 60 \<ge> 12 then ''PM'' else ''AM'')"

datatype TimeBlock = morning | midday | afternoon | evening

definition getTimeBlock :: "int \<Rightarrow> TimeBlock" where
  "getTimeBlock mins =
     (if mins < 720 then morning
      else if mins < 840 then midday
      else if mins < 1020 then afternoon
      else evening)"

section \<open>Appointment parser (parseAppointments)\<close>

datatype aptType = outing | visitor | appointment | other

record ParsedAppointment =
  description :: string
  startTime :: "string option"
  endTime :: "string option"
  startMins :: "int option"
  endMins :: "int option"
  aptType :: aptType
  fulfillsTask :: "string option"

text \<open>\<open>/[,;\n]|(?:\s+and\s+)/i\<close>\<close>

definition reDelimiter :: re where
  "reDelimiter =
     Alt (C (In [CHR '','', CHR '';'', CHR 0x0A]))
         (seqs [C wsCls, StarC wsCls, ci ''and'', C wsCls, StarC wsCls])"

text \<open>The keyword expressions, in the order they are tested.\<close>

definition reWalk :: re where
  "reWalk = alts (map ci [''walk'', ''stroll'', ''park'', ''outside''])"

definition reVisitor :: re where
  "reVisitor =
     alts (map ci [''visit'', ''friend'', ''coming over'', ''guest'', ''playdate'', ''play date'']
           @ [seqs [ci ''someone'', StarC dotCls, ci ''over'']])"

definition reMedical :: re where
  "reMedical =
     alts (map ci [''doctor'', ''appointment'', ''checkup'', ''check-up'', ''clinic'', ''hospital''])"

definition reErrand :: re where
  "reErrand =
     alts (map ci [''library'', ''cafe'', ''coffee'', ''lunch'', ''brunch'', ''shopping'',
                   ''errand'', ''museum'', ''zoo''])"

text \<open>\<open>\d{1,2}(?::\d{2})?\s*(?:am|pm)?\<close>, the body of the time captures.\<close>

definition reTimeToken :: re where
  "reTimeToken =
     seqs [reDigit12, Opt (seqs [lit '':'', reDigit, reDigit]), StarC wsCls, Opt (Alt (ci ''am'') (ci ''pm''))]"

text \<open>\<open>/(?:at\s+)?(\d{1,2}(?::\d{2})?\s*(?:am|pm)?)/i\<close>\<close>

definition reSingleTime :: re where
  "reSingleTime = seqs [Opt (seqs [ci ''at'', C wsCls, StarC wsCls]), Grp 1 reTimeToken]"

text \<open>
  \<open>/(?:from\s+)?(\d{1,2}(?::\d{2})?\s*(?:am|pm)?)\s*(?:-|to|until|til)\s*(\d{1,2}(?::\d{2})?\s*(?:am|pm)?)/i\<close>
\<close>

definition reRange :: re where
  "reRange =
     seqs [Opt (seqs [ci ''from'', C wsCls, StarC wsCls]), Grp 1 reTimeToken, StarC wsCls,
           alts [lit ''-'', ci ''to'', ci ''until'', ci ''til''], StarC wsCls, Grp 2 reTimeToken]"

definition reAmPm :: re where
  "reAmPm = Alt (ci ''am'') (ci ''pm'')"

definition rePm :: re where
  "rePm = ci ''pm''"

definition detectType :: "string \<Rightarrow> aptType \<times> string option" where
  "detectType trimmed =
     (if reTest reWalk trimmed then (outing, Some ''Going for a walk'')
      else if reTest reVisitor trimmed then (visitor, None)
      else if reTest reMedical trimmed then (appointment, None)
      else if reTest reErrand trimmed then (outing, None)
      else (other, None))"

text \<open>The end time of a range, after the inference of \<open>PM\<close>.\<close>

definition inferEndTime :: "string \<Rightarrow> string \<Rightarrow> string" where
  "inferEndTime startTimeStr endTimeStr =
     (if \<not> reTest reAmPm endTimeStr \<and> reTest rePm startTimeStr then endTimeStr @ '' PM''
      else if \<not> reTest reAmPm endTimeStr then
        (case parseInt endTimeStr of
           Some endHour \<Rightarrow> if endHour \<ge> 1 \<and> endHour \<le> 7 then endTimeStr @ '' PM'' else endTimeStr
         | None \<Rightarrow> endTimeStr)
      else endTimeStr)"

text \<open>One iteration of the loop over the parts, for a part whose trimmed text is not empty.\<close>

definition parsePart :: "string \<Rightarrow> ParsedAppointment" where
  "parsePart part =
     (let trimmed = toLowerCase (trim part);
          ty = detectType trimmed;
          apt = \<lparr> description = trim part, startTime = None, endTime = None,
                  startMins = None, endMins = None, aptType = fst ty, fulfillsTask = snd ty \<rparr>
      in case reMatch reRange trimmed of
           Some rangeMatch \<Rightarrow>
             (let s = parseTimeToMinutes (grp rangeMatch 1);
                  e = parseTimeToMinutes (inferEndTime (grp rangeMatch 1) (grp rangeMatch 2))
              in apt \<lparr> startMins := Some s, endMins := Some e,
                       startTime := Some (minutesToTimeString s),
                       endTime := Some (minutesToTimeString e) \<rparr>)
         | None \<Rightarrow>
             (case reMatch reSingleTime trimmed of
                Some singleTimeMatch \<Rightarrow>
                  (let s = parseTimeToMinutes (grp singleTimeMatch 1);
                       durationMins = (if fst ty = appointment then 60 else 90)
                   in apt \<lparr> startMins := Some s, startTime := Some (minutesToTimeString s),
                            endMins := Some (s + durationMins),
                            endTime := Some (minutesToTimeString (s + durationMins)) \<rparr>)
              | None \<Rightarrow> apt))"

definition parseAppointments :: "string \<Rightarrow> ParsedAppointment list" where
  "parseAppointments text =
     (if text = [] \<or> trim text = [] then []
      else map parsePart
             (filter (\<lambda>part. toLowerCase (trim part) \<noteq> [])
                (filter (\<lambda>p. trim p \<noteq> []) (splitRe reDelimiter [] text))))"

subsection \<open>Canonical time strings\<close>

text \<open>
  The strings of the form \<open>H:MM AM\<close> or \<open>H:MM PM\<close> with \<open>H\<close> from 1 to 12 written
  without a leading zero and \<open>MM\<close> from 00 to 59 written with two digits.
\<close>

definition canonicalHours :: "string list" where
  "canonicalHours = map (\<lambda>c. [c]) ''123456789'' @ [''10'', ''11'', ''12'']"

definition tensChars :: string where
  "tensChars = ''012345''"

definition meridiems :: "string list" where
  "meridiems = [''AM'', ''PM'']"

definition canonicalTimes :: "string list" where
  "canonicalTimes =
     concat (map (\<lambda>h. concat (map (\<lambda>m1. concat (map (\<lambda>m2.
        map (\<lambda>ap. h @ '':'' @ [m1, m2] @ '' '' @ ap) meridiems)
        digitChars)) tensChars)) canonicalHours)"

definition isCanonicalTime :: "string \<Rightarrow> bool" where
  "isCanonicalTime s = (s \<in> set canonicalTimes)"

section \<open>Time allocation (src/lib/activities.ts, inside generateChecklist)\<close>

text \<open>
  Minutes since midnight are JavaScript numbers that only ever hold integers here;
  they are modelled as \<open>int\<close>. An entry of \<open>scheduledTimes\<close> is the object
  \<open>{ start, end }\<close>.
\<close>

record slot =
  start :: int
  end' :: int

definition END_BY_TIME :: int where
  "END_BY_TIME = 1110"

text \<open>
  The body of both \<open>isSlotAvailable\<close> and \<open>isSlotAvailableNoEndLimit\<close>:
  \<open>for (const slot of scheduledTimes) if (start < slot.end && end > slot.start) return false;\<close>
  followed by \<open>return true\<close>.
\<close>

fun isSlotAvailableNoEndLimit :: "slot list \<Rightarrow> int \<Rightarrow> int \<Rightarrow> bool" where
  "isSlotAvailableNoEndLimit [] s e = True"
| "isSlotAvailableNoEndLimit (sl # rest) s e =
     (if s < end' sl \<and> e > start sl then False else isSlotAvailableNoEndLimit rest s e)"

definition isSlotAvailable :: "slot list \<Rightarrow> int \<Rightarrow> int \<Rightarrow> bool" where
  "isSlotAvailable scheduledTimes s e =
     (if e > END_BY_TIME then False else isSlotAvailableNoEndLimit scheduledTimes s e)"

text \<open>
  \<open>for (let mins = m0; mins >= 420; mins -= 15) if (isSlotAvailable(mins, mins + duration)) return mins;\<close>
  The loop either returns the slot it found or falls through (\<open>None\<close>).
\<close>

function searchBackward :: "slot list \<Rightarrow> int \<Rightarrow> int \<Rightarrow> int option" where
  "searchBackward scheduledTimes duration mins =
     (if mins \<ge> 420 then
        (if isSlotAvailable scheduledTimes mins (mins + duration) then Some mins
         else searchBackward scheduledTimes duration (mins - 15))
      else None)"
  by pat_completeness auto
termination
  by (relation "measure (\<lambda>(st, d, m). nat (m - 420 + 15))") auto

text \<open>
  \<open>for (let mins = m0; mins <= END_BY_TIME - duration; mins += 15) if (isSlotAvailable(mins, mins + duration)) return mins;\<close>
\<close>

function searchForward :: "slot list \<Rightarrow> int \<Rightarrow> int \<Rightarrow> int option" where
  "searchForward scheduledTimes duration mins =
     (if mins \<le> END_BY_TIME - duration then
        (if isSlotAvailable scheduledTimes mins (mins + duration) then Some mins
         else searchForward scheduledTimes duration (mins + 15))
      else None)"
  by pat_completeness auto
termination
  by (relation "measure (\<lambda>(st, d, m). nat (END_BY_TIME - d - m + 15))") auto

declare searchBackward.simps [simp del] searchForward.simps [simp del]

definition findNextSlot :: "slot list \<Rightarrow> int \<Rightarrow> int \<Rightarrow> int" where
  "findNextSlot scheduledTimes preferredMins duration =
     (case (if preferredMins + duration > END_BY_TIME
            then searchBackward scheduledTimes duration (END_BY_TIME - duration)
            else None) of
        Some mins \<Rightarrow> mins
      | None \<Rightarrow>
          if isSlotAvailable scheduledTimes preferredMins (preferredMins + duration)
          then preferredMins
          else (case searchForward scheduledTimes duration (preferredMins + 15) of
                  Some mins \<Rightarrow> mins
                | None \<Rightarrow>
                    (case searchBackward scheduledTimes duration (preferredMins - 15) of
                       Some mins \<Rightarrow> mins
                     | None \<Rightarrow> preferredMins)))"

subsection \<open>The search order as the specification words it\<close>

text \<open>
  The candidate starts of a backward scan from \<open>m0\<close> in 15-minute steps down to 420, and
  of a forward scan from \<open>m0\<close> in 15-minute steps up to \<open>hi\<close>, in the order they are tried.
\<close>

definition backwardStarts :: "int \<Rightarrow> int list" where
  "backwardStarts m0 =
     map (\<lambda>k. m0 - 15 * int k) [0 ..< (if m0 \<ge> 420 then nat ((m0 - 420) div 15) + 1 else 0)]"

definition forwardStarts :: "int \<Rightarrow> int \<Rightarrow> int list" where
  "forwardStarts m0 hi =
     map (\<lambda>k. m0 + 15 * int k) [0 ..< (if m0 \<le> hi then nat ((hi - m0) div 15) + 1 else 0)]"

definition firstFree :: "slot list \<Rightarrow> int \<Rightarrow> int list \<Rightarrow> int option" where
  "firstFree scheduledTimes duration starts =
     find (\<lambda>m. isSlotAvailable scheduledTimes m (m + duration)) starts"

text \<open>
  The order of the attempts of \<open>placeNear\<close>: each later attempt is made only when every
  earlier one found nothing, and the preferred start is the answer when all of them fail.
\<close>

definition placeNearAttempts :: "int \<Rightarrow> int \<Rightarrow> int list" where
  "placeNearAttempts preferredStart duration =
     (if preferredStart + duration > 1110 then backwardStarts (1110 - duration) else [])
     @ [preferredStart]
     @ forwardStarts (preferredStart + 15) (1110 - duration)
     @ backwardStarts (preferredStart - 15)"

definition placeNear :: "slot list \<Rightarrow> int \<Rightarrow> int \<Rightarrow> int" where
  "placeNear scheduledTimes preferredStart duration =
     (case firstFree scheduledTimes duration (placeNearAttempts preferredStart duration) of
        Some m \<Rightarrow> m
      | None \<Rightarrow> preferredStart)"

section \<open>Activity scoring and selection\<close>

datatype energy = low | medium | high

datatype category = sensory | motor | cognitive | social | creative

datatype weatherNeed = good | bad | any

text \<open>
  \<open>Activity\<close>, with the fields the engine reads (\<open>description\<close> and \<open>materials\<close> are never
  read); \<open>actId\<close> is the field \<open>id\<close>, \<open>ageMin\<close> and \<open>ageMax\<close> are \<open>ageRange.min\<close> and
  \<open>ageRange.max\<close>.
\<close>

record Activity =
  actId :: string
  title :: string
  duration :: int
  energyRequired :: energy
  indoor :: bool
  category :: category
  ageMin :: int
  ageMax :: int
  weatherDependent :: "weatherNeed option"
  tags :: "string list"

text \<open>
  The catalog \<open>activities\<close> is read from \<open>data/activities.json\<close>, which is not part of the
  sources; it is a parameter. \<open>selected.includes(activity)\<close> compares object references:
  an activity object is identified by its position in the catalog, and a reference is
  that position together with the object.
\<close>

type_synonym aref = "nat \<times> Activity"

definition catalogRefs :: "Activity list \<Rightarrow> aref list" where
  "catalogRefs activities = zip [0 ..< length activities] activities"

record WeatherData =
  isRainy :: bool
  isGoodWeather :: bool

record DailySurvey =
  energyLevel :: energy
  stayingHome :: bool
  wantsCrafts :: bool
  appointments :: "string option"
  parsedAppointments :: "ParsedAppointment list option"

record SelectionContext =
  survey :: DailySurvey
  weather :: "WeatherData option"
  babyAgeMonths :: int

text \<open>The three early \<open>return 0\<close> of \<open>scoreActivity\<close>; \<open>Math.random\<close> is not called then.\<close>

definition disqualified :: "Activity \<Rightarrow> SelectionContext \<Rightarrow> bool" where
  "disqualified activity context =
     (babyAgeMonths context < ageMin activity \<or> babyAgeMonths context > ageMax activity
      \<or> (case weather context of
            Some w \<Rightarrow> \<not> indoor activity \<and> isRainy w
          | None \<Rightarrow> False)
      \<or> (stayingHome (survey context) \<and> \<not> indoor activity))"

text \<open>The score before the random term, for an activity that is not disqualified.\<close>

definition baseScore :: "Activity \<Rightarrow> SelectionContext \<Rightarrow> int" where
  "baseScore activity context =
     50
     + (case weather context of
          Some w \<Rightarrow>
            (if \<not> indoor activity \<and> \<not> stayingHome (survey context) \<and> isGoodWeather w
             then 20 else 0)
            + (if weatherDependent activity = Some good \<and> \<not> isGoodWeather w then - 30 else 0)
        | None \<Rightarrow> 0)
     + (if \<not> stayingHome (survey context) \<and> \<not> indoor activity then 15 else 0)
     + (if energyLevel (survey context) = low then
          (if energyRequired activity = high then - 40
           else if energyRequired activity = low then 20 else 0)
        else if energyLevel (survey context) = high then
          (if energyRequired activity = high then 15 else 0)
        else 0)
     + (if wantsCrafts (survey context) \<and> category activity = creative then 30 else 0)
     + (if wantsCrafts (survey context) \<and> ''messy'' \<in> set (tags activity) then 10 else 0)
     + (case appointments (survey context) of
          Some text \<Rightarrow>
            (if text \<noteq> [] then
               (if duration activity \<le> 15 then 15
                else if duration activity \<ge> 30 then - 10 else 0)
             else 0)
        | None \<Rightarrow> 0)"

text \<open>\<open>r\<close> is the value \<open>Math.random()\<close> returns in this call.\<close>

definition scoreActivity :: "Activity \<Rightarrow> SelectionContext \<Rightarrow> real \<Rightarrow> real" where
  "scoreActivity activity context r =
     (if disqualified activity context then 0
      else max 0 (real_of_int (baseScore activity context) + r * 20))"

text \<open>
  \<open>.map(activity => ({ activity, score: scoreActivity(activity, context) }))\<close>: \<open>rnd\<close> gives
  the successive values of \<open>Math.random()\<close> and \<open>k\<close> counts the calls made so far.
\<close>

fun scoreAll :: "SelectionContext \<Rightarrow> (nat \<Rightarrow> real) \<Rightarrow> nat \<Rightarrow> aref list \<Rightarrow> (aref \<times> real) list" where
  "scoreAll context rnd k [] = []"
| "scoreAll context rnd k (a # rest) =
     (if disqualified (snd a) context
      then (a, scoreActivity (snd a) context 0) # scoreAll context rnd k rest
      else (a, scoreActivity (snd a) context (rnd k)) # scoreAll context rnd (Suc k) rest)"

text \<open>\<open>[...scored].sort((a, b) => b.score - a.score)\<close>; the sort is stable.\<close>

definition sortByScore :: "(aref \<times> real) list \<Rightarrow> (aref \<times> real) list" where
  "sortByScore scored = sort_key (\<lambda>p. - snd p) scored"

text \<open>The two loops of \<open>pickDiverseActivities\<close> over \<open>sorted\<close>, each with its \<open>break\<close>.\<close>

fun firstPass :: "(aref \<times> real) list \<Rightarrow> int \<Rightarrow> aref list \<Rightarrow> category set \<Rightarrow> aref list" where
  "firstPass [] count selected usedCategories = selected"
| "firstPass (p # rest) count selected usedCategories =
     (if int (length selected) \<ge> count then selected
      else if category (snd (fst p)) \<notin> usedCategories
      then firstPass rest count (selected @ [fst p]) (insert (category (snd (fst p))) usedCategories)
      else firstPass rest count selected usedCategories)"

fun secondPass :: "(aref \<times> real) list \<Rightarrow> int \<Rightarrow> aref list \<Rightarrow> aref list" where
  "secondPass [] count selected = selected"
| "secondPass (p # rest) count selected =
     (if int (length selected) \<ge> count then selected
      else if fst p \<notin> set selected then secondPass rest count (selected @ [fst p])
      else secondPass rest count selected)"

definition pickDiverseActivities :: "(aref \<times> real) list \<Rightarrow> int \<Rightarrow> aref list" where
  "pickDiverseActivities scored count =
     secondPass (sortByScore scored) count
       (firstPass (sortByScore scored) count [] {}) "

text \<open>\<open>EXCLUDED_BONUS_PATTERNS\<close>: \<open>/walk/i\<close>, \<open>/stroll/i\<close>, \<open>/bath/i\<close>.\<close>

definition EXCLUDED_BONUS_PATTERNS :: "re list" where
  "EXCLUDED_BONUS_PATTERNS = [ci ''walk'', ci ''stroll'', ci ''bath'']"

definition overlapsWithRecurringTasks :: "Activity \<Rightarrow> bool" where
  "overlapsWithRecurringTasks activity =
     list_ex (\<lambda>pattern. reTest pattern (title activity @ '' '' @ joinSpace (tags activity)))
       EXCLUDED_BONUS_PATTERNS"

definition cafeKeywords :: "string list" where
  "cafeKeywords = [''cafe'', ''coffee'', ''brunch'', ''lunch'']"

definition isCafeOrFoodActivity :: "Activity \<Rightarrow> bool" where
  "isCafeOrFoodActivity activity =
     (if list_ex (\<lambda>keyword. includesStr (toLowerCase (title activity)) keyword) cafeKeywords
      then True
      else if list_ex (\<lambda>tag. list_ex (\<lambda>keyword. includesStr tag keyword) cafeKeywords)
                (map toLowerCase (tags activity))
      then True
      else if list_ex (\<lambda>keyword. includesStr (toLowerCase (actId activity)) keyword) cafeKeywords
      then True
      else False)"

text \<open>
  \<open>scheduledTimes[i] || scheduledTimes[scheduledTimes.length - 1] || 570\<close>: an index out of
  range reads \<open>undefined\<close>, and \<open>undefined\<close> and 0 are both falsy.
\<close>

definition slotMins :: "int list \<Rightarrow> nat \<Rightarrow> int" where
  "slotMins scheduledTimes i =
     (if i < length scheduledTimes \<and> scheduledTimes ! i \<noteq> 0 then scheduledTimes ! i
      else if scheduledTimes \<noteq> [] \<and> last scheduledTimes \<noteq> 0 then last scheduledTimes
      else 570)"

text \<open>
  The inner loop of the first pass of \<open>pickDiverseActivitiesWithTimeConstraints\<close> for one
  slot: the activity it pushes before its \<open>break\<close>, if any. \<open>n\<close> is \<open>sorted.length\<close>.
\<close>

fun pickForSlot ::
  "(aref \<times> real) list \<Rightarrow> nat \<Rightarrow> int \<Rightarrow> aref list \<Rightarrow> category set \<Rightarrow> int \<Rightarrow> aref option" where
  "pickForSlot [] n count selected usedCategories scheduledMins = None"
| "pickForSlot (p # rest) n count selected usedCategories scheduledMins =
     (if fst p \<in> set selected then pickForSlot rest n count selected usedCategories scheduledMins
      else if isCafeOrFoodActivity (snd (fst p)) \<and> scheduledMins + duration (snd (fst p)) > 900
      then pickForSlot rest n count selected usedCategories scheduledMins
      else if int (length selected) < count
              \<and> (category (snd (fst p)) \<notin> usedCategories \<or> 2 * length selected \<ge> n)
      then Some (fst p)
      else pickForSlot rest n count selected usedCategories scheduledMins)"

text \<open>\<open>for (let i = 0; i < count && selected.length < count; i++)\<close>\<close>

function slotPass ::
  "(aref \<times> real) list \<Rightarrow> int \<Rightarrow> int list \<Rightarrow> nat \<Rightarrow> aref list \<Rightarrow> category set \<Rightarrow> aref list" where
  "slotPass sortedScored count scheduledTimes i selected usedCategories =
     (if int i < count \<and> int (length selected) < count then
        (case pickForSlot sortedScored (length sortedScored) count selected usedCategories
                (slotMins scheduledTimes i) of
           Some a \<Rightarrow>
             slotPass sortedScored count scheduledTimes (Suc i) (selected @ [a])
               (insert (category (snd a)) usedCategories)
         | None \<Rightarrow> slotPass sortedScored count scheduledTimes (Suc i) selected usedCategories)
      else selected)"
  by pat_completeness auto
termination
  by (relation "measure (\<lambda>(srt, count, sts, i, sel, used). nat (count - int i))") auto

declare slotPass.simps [simp del]

text \<open>The inner loop of the fill pass for one slot.\<close>

fun fillForSlot :: "(aref \<times> real) list \<Rightarrow> aref list \<Rightarrow> int \<Rightarrow> aref option" where
  "fillForSlot [] selected scheduledMins = None"
| "fillForSlot (p # rest) selected scheduledMins =
     (if fst p \<in> set selected then fillForSlot rest selected scheduledMins
      else if isCafeOrFoodActivity (snd (fst p)) \<and> scheduledMins + duration (snd (fst p)) > 900
      then fillForSlot rest selected scheduledMins
      else Some (fst p))"

text \<open>\<open>for (let i = selected.length; i < count; i++)\<close>\<close>

function fillPass :: "(aref \<times> real) list \<Rightarrow> int \<Rightarrow> int list \<Rightarrow> nat \<Rightarrow> aref list \<Rightarrow> aref list" where
  "fillPass sortedScored count scheduledTimes i selected =
     (if int i < count then
        (case fillForSlot sortedScored selected (slotMins scheduledTimes i) of
           Some a \<Rightarrow> fillPass sortedScored count scheduledTimes (Suc i) (selected @ [a])
         | None \<Rightarrow> fillPass sortedScored count scheduledTimes (Suc i) selected)
      else selected)"
  by pat_completeness auto
termination
  by (relation "measure (\<lambda>(srt, count, sts, i, sel). nat (count - int i))") auto

declare fillPass.simps [simp del]

definition pickDiverseActivitiesWithTimeConstraints ::
  "(aref \<times> real) list \<Rightarrow> int \<Rightarrow> int list \<Rightarrow> aref list" where
  "pickDiverseActivitiesWithTimeConstraints scored count scheduledTimes =
     fillPass (sortByScore scored) count scheduledTimes
       (length (slotPass (sortByScore scored) count scheduledTimes 0 [] {}))
       (slotPass (sortByScore scored) count scheduledTimes 0 [] {})"

text \<open>
  The filtered candidate pool of \<open>selectBonusActivities\<close>: the catalog without the
  activities that match the exclusion patterns, scored, without the scores that are not
  positive.
\<close>

definition scoredPool :: "Activity list \<Rightarrow> SelectionContext \<Rightarrow> (nat \<Rightarrow> real) \<Rightarrow> (aref \<times> real) list" where
  "scoredPool activities context rnd =
     filter (\<lambda>p. snd p > 0)
       (scoreAll context rnd 0
          (filter (\<lambda>a. \<not> overlapsWithRecurringTasks (snd a)) (catalogRefs activities)))"

text \<open>
  \<open>selectBonusActivities(survey, weather, count, scheduledTimes)\<close>; the catalog, the age
  \<open>getBabyAgeMonths()\<close> returns and the random values are parameters. The optional
  \<open>scheduledTimes\<close> is \<open>None\<close> when the argument is absent.
\<close>

definition selectBonusActivities ::
  "Activity list \<Rightarrow> int \<Rightarrow> (nat \<Rightarrow> real) \<Rightarrow> DailySurvey \<Rightarrow> WeatherData option \<Rightarrow> int
     \<Rightarrow> int list option \<Rightarrow> aref list" where
  "selectBonusActivities activities age rnd sv w count scheduledTimes =
     (case scheduledTimes of
        Some sts \<Rightarrow>
          if sts \<noteq> []
          then pickDiverseActivitiesWithTimeConstraints
                 (scoredPool activities \<lparr>survey = sv, weather = w, babyAgeMonths = age\<rparr> rnd) count sts
          else pickDiverseActivities
                 (scoredPool activities \<lparr>survey = sv, weather = w, babyAgeMonths = age\<rparr> rnd) count
      | None \<Rightarrow>
          pickDiverseActivities
            (scoredPool activities \<lparr>survey = sv, weather = w, babyAgeMonths = age\<rparr> rnd) count)"

text \<open>
  \<open>getReplacementActivity(survey, weather, excludeActivityIds, scheduledMinutes)\<close>; \<open>None\<close>
  is \<open>null\<close>.
\<close>

definition replacementPool ::
  "Activity list \<Rightarrow> SelectionContext \<Rightarrow> (nat \<Rightarrow> real) \<Rightarrow> string list \<Rightarrow> int option
     \<Rightarrow> (aref \<times> real) list" where
  "replacementPool activities context rnd excludeActivityIds scheduledMinutes =
     sortByScore
       (filter (\<lambda>p. snd p > 0)
          (scoreAll context rnd 0
             (filter (\<lambda>a. case scheduledMinutes of
                             Some mins \<Rightarrow>
                               \<not> (isCafeOrFoodActivity (snd a) \<and> mins + duration (snd a) > 900)
                           | None \<Rightarrow> True)
                (filter (\<lambda>a. actId (snd a) \<notin> set excludeActivityIds)
                   (filter (\<lambda>a. \<not> overlapsWithRecurringTasks (snd a))
                      (catalogRefs activities))))))"

definition getReplacementActivity ::
  "Activity list \<Rightarrow> int \<Rightarrow> (nat \<Rightarrow> real) \<Rightarrow> DailySurvey \<Rightarrow> WeatherData option \<Rightarrow> string list
     \<Rightarrow> int option \<Rightarrow> aref option" where
  "getReplacementActivity activities age rnd sv w excludeActivityIds scheduledMinutes =
     (case replacementPool activities \<lparr>survey = sv, weather = w, babyAgeMonths = age\<rparr> rnd
             excludeActivityIds scheduledMinutes of
        [] \<Rightarrow> None
      | p # rest \<Rightarrow> Some (fst p))"

section \<open>Schedule assembly (generateChecklist)\<close>

text \<open>
  \<open>UserPreferences\<close>, with the fields \<open>generateChecklist\<close> reads; it is what
  \<open>getPreferences()\<close> returns.
\<close>

record UserPreferences =
  recurringTasks :: "string list"
  feedingTimes :: "string list"
  napsPerDay :: int
  napDuration :: int

datatype itemType = recurring | bonus | feeding | nap

text \<open>
  \<open>ChecklistItem\<close>: \<open>itemId\<close>, \<open>itemType\<close> and \<open>itemTime\<close> are the fields \<open>id\<close>, \<open>type\<close> and
  \<open>time\<close>; an optional field that is absent is \<open>None\<close>.
\<close>

record ChecklistItem =
  itemId :: string
  task :: string
  completed :: bool
  itemType :: itemType
  activity :: "aref option"
  itemTime :: "string option"
  timeBlock :: "TimeBlock option"
  suggestedTime :: "string option"
  socialActivity :: "bool option"
  canOverlap :: "bool option"

text \<open>
  An entry of \<open>recurringTimeSlots\<close>: \<open>slotTime\<close>, \<open>slotDuration\<close>, \<open>slotSocial\<close> and
  \<open>slotExclusive\<close> are its fields \<open>time\<close>, \<open>duration\<close>, \<open>social\<close> and \<open>exclusive\<close>. The
  default entry \<open>{ time: '9:00 AM', duration: 20 }\<close> has neither \<open>social\<close> nor \<open>exclusive\<close>.
\<close>

record RecurringSlot =
  slotTime :: string
  slotDuration :: int
  slotSocial :: "bool option"
  slotExclusive :: "bool option"
  exemptFromEndTime :: bool

definition recurringTimeSlots :: "(string \<times> RecurringSlot) list" where
  "recurringTimeSlots =
     [(''Read 5 books'',
        \<lparr>slotTime = ''9:00 AM'', slotDuration = 20, slotSocial = Some True,
         slotExclusive = Some False, exemptFromEndTime = False\<rparr>),
      (''Eating solids'',
        \<lparr>slotTime = ''12:30 PM'', slotDuration = 30, slotSocial = Some False,
         slotExclusive = Some True, exemptFromEndTime = False\<rparr>),
      (''Going for a walk'',
        \<lparr>slotTime = ''3:30 PM'', slotDuration = 45, slotSocial = Some True,
         slotExclusive = Some True, exemptFromEndTime = False\<rparr>),
      (''Having a bath'',
        \<lparr>slotTime = ''6:00 PM'', slotDuration = 30, slotSocial = Some False,
         slotExclusive = Some True, exemptFromEndTime = True\<rparr>),
      (''Vestibular play'',
        \<lparr>slotTime = ''11:00 AM'', slotDuration = 15, slotSocial = Some True,
         slotExclusive = Some False, exemptFromEndTime = False\<rparr>),
      (''Crawling/walking practice'',
        \<lparr>slotTime = ''2:30 PM'', slotDuration = 20, slotSocial = Some True,
         slotExclusive = Some False, exemptFromEndTime = False\<rparr>),
      (''Music time'',
        \<lparr>slotTime = ''4:30 PM'', slotDuration = 15, slotSocial = Some True,
         slotExclusive = Some False, exemptFromEndTime = False\<rparr>)]"

definition defaultRecurringSlot :: RecurringSlot where
  "defaultRecurringSlot =
     \<lparr>slotTime = ''9:00 AM'', slotDuration = 20, slotSocial = None,
      slotExclusive = None, exemptFromEndTime = False\<rparr>"

text \<open>
  \<open>recurringTimeSlots[task] || { time: '9:00 AM', duration: 20 }\<close>. The table is an object
  literal, so a task named like a property that every object inherits reads that
  property, which is truthy and has no field \<open>time\<close>: the lookup then yields no slot
  (\<open>None\<close>), and \<open>parseTimeToMinutes(defaultSlot.time)\<close> raises a \<open>TypeError\<close>.
\<close>

definition objectPrototypeKeys :: "string list" where
  "objectPrototypeKeys =
     [''constructor'', ''hasOwnProperty'', ''isPrototypeOf'', ''propertyIsEnumerable'',
      ''toLocaleString'', ''toString'', ''valueOf'', ''__proto__'', ''__defineGetter__'',
      ''__defineSetter__'', ''__lookupGetter__'', ''__lookupSetter__'']"

definition lookupSlot :: "string \<Rightarrow> RecurringSlot option" where
  "lookupSlot t =
     (case map_of recurringTimeSlots t of
        Some s \<Rightarrow> Some s
      | None \<Rightarrow> if t \<in> set objectPrototypeKeys then None else Some defaultRecurringSlot)"

datatype error = TypeError

text \<open>
  How an item came to its time: a feed at its own time, a recurring task at the time of
  the appointment that fulfills it, the task exempt from the end time at its preferred
  time, or an item placed by \<open>findNextSlot\<close>, at a free slot or by its last line
  \<open>return preferredMins; // Fallback\<close>.
\<close>

datatype how = Anchor | Fulfilled | Exempt | Found | Fallback

text \<open>
  An item together with the minute it was given, the duration used for it and how it was
  placed; the list \<open>items\<close> of the source is \<open>map item\<close> of the placements.
\<close>

record Placement =
  item :: ChecklistItem
  pStart :: int
  pDuration :: int
  how :: how

record Run =
  scheduledTimes :: "slot list"
  placed :: "Placement list"

text \<open>\<open>scheduledTimes.push({ start: mins, end: mins + duration }); items.push(...)\<close>\<close>

definition pushPlaced :: "Run \<Rightarrow> ChecklistItem \<Rightarrow> int \<Rightarrow> int \<Rightarrow> how \<Rightarrow> Run" where
  "pushPlaced r it mins dur h =
     \<lparr> scheduledTimes = scheduledTimes r @ [\<lparr>start = mins, end' = mins + dur\<rparr>],
       placed = placed r @ [\<lparr>item = it, pStart = mins, pDuration = dur, how = h\<rparr>] \<rparr>"

text \<open>\<open>findNextSlot\<close> reaches its last line: every scan came back empty-handed.\<close>

definition reachesFallback :: "slot list \<Rightarrow> int \<Rightarrow> int \<Rightarrow> bool" where
  "reachesFallback occupied preferredMins dur =
     ((if preferredMins + dur > END_BY_TIME
       then searchBackward occupied dur (END_BY_TIME - dur) else None) = None
      \<and> \<not> isSlotAvailable occupied preferredMins (preferredMins + dur)
      \<and> searchForward occupied dur (preferredMins + 15) = None
      \<and> searchBackward occupied dur (preferredMins - 15) = None)"

definition placeItem :: "Run \<Rightarrow> ChecklistItem \<Rightarrow> int \<Rightarrow> int \<Rightarrow> Run" where
  "placeItem r it preferredMins dur =
     pushPlaced r it (findNextSlot (scheduledTimes r) preferredMins dur) dur
       (if reachesFallback (scheduledTimes r) preferredMins dur then Fallback else Found)"

text \<open>The item fields every \<open>items.push\<close> shares.\<close>

definition newItem :: "string \<Rightarrow> string \<Rightarrow> itemType \<Rightarrow> int \<Rightarrow> ChecklistItem" where
  "newItem i t ty mins =
     \<lparr> itemId = i, task = t, completed = False, itemType = ty, activity = None,
       itemTime = None, timeBlock = Some (getTimeBlock mins),
       suggestedTime = Some (minutesToTimeString mins),
       socialActivity = None, canOverlap = None \<rparr>"

text \<open>The body of \<open>preferences.feedingTimes.forEach((time, index) => ...)\<close>\<close>

definition addFeed :: "Run \<Rightarrow> nat \<times> string \<Rightarrow> Run" where
  "addFeed r p =
     pushPlaced r
       ((newItem (''feeding-'' @ numToString (int (fst p))) ''Feed baby'' feeding
           (parseTimeToMinutes (snd p)))
          \<lparr> itemTime := Some (minutesToTimeString (parseTimeToMinutes (snd p))) \<rparr>)
       (parseTimeToMinutes (snd p)) 30 Anchor"

text \<open>The body of the loop that registers the appointments.\<close>

definition addAppointment :: "Run \<Rightarrow> ParsedAppointment \<Rightarrow> Run" where
  "addAppointment r apt =
     (case (startMins apt, endMins apt) of
        (Some s, Some e) \<Rightarrow> r \<lparr> scheduledTimes := scheduledTimes r @ [\<lparr>start = s, end' = e\<rparr>] \<rparr>
      | _ \<Rightarrow> r)"

definition napTimes :: "string list" where
  "napTimes = [''10:00 AM'', ''2:30 PM'']"

text \<open>The body of the loop over the naps; \<open>napDuration || 30\<close>.\<close>

definition addNap :: "UserPreferences \<Rightarrow> Run \<Rightarrow> nat \<Rightarrow> Run" where
  "addNap preferences r i =
     (let napTime = (if i < length napTimes then napTimes ! i else last napTimes);
          dur = (if napDuration preferences \<noteq> 0 then napDuration preferences else 30);
          mins = findNextSlot (scheduledTimes r) (parseTimeToMinutes napTime) dur
      in placeItem r
           (newItem (''nap-'' @ numToString (int i))
              (''Nap '' @ numToString (int i + 1) @ '' (~'' @ numToString dur @ ''min)'') nap mins)
           (parseTimeToMinutes napTime) dur)"

text \<open>
  \<open>fulfilledTasks\<close>: the truthy \<open>fulfillsTask\<close> of the appointments. \<open>visitorFriendlyTasks\<close>:
  the keys of the table whose entry is social, in the order of the table. \<open>visitorApt\<close>:
  the first appointment of type visitor.
\<close>

definition fulfilledTasks :: "ParsedAppointment list \<Rightarrow> string list" where
  "fulfilledTasks appts =
     concat (map (\<lambda>apt. case fulfillsTask apt of
                           Some t \<Rightarrow> if t \<noteq> [] then [t] else []
                         | None \<Rightarrow> []) appts)"

definition visitorFriendlyTasks :: "string list" where
  "visitorFriendlyTasks =
     map fst (filter (\<lambda>e. slotSocial (snd e) = Some True) recurringTimeSlots)"

definition visitorApt :: "ParsedAppointment list \<Rightarrow> ParsedAppointment option" where
  "visitorApt appts = find (\<lambda>a. aptType a = visitor) appts"

text \<open>\<open>xs.indexOf(x)\<close> for an \<open>x\<close> that is in \<open>xs\<close>.\<close>

definition indexOf :: "string list \<Rightarrow> string \<Rightarrow> nat" where
  "indexOf xs x = length (takeWhile (\<lambda>y. y \<noteq> x) xs)"

text \<open>\<open>/walk.*with\s*/i\<close> and \<open>/at\s*\d.*/i\<close>\<close>

definition reWalkWith :: re where
  "reWalkWith = seqs [ci ''walk'', StarC dotCls, ci ''with'', StarC wsCls]"

definition reAtTime :: re where
  "reAtTime = seqs [ci ''at'', StarC wsCls, reDigit, StarC dotCls]"

definition companion :: "ParsedAppointment \<Rightarrow> string" where
  "companion apt =
     (if trim (replaceEmpty reAtTime (replaceEmpty reWalkWith (description apt))) = []
      then ''friend''
      else trim (replaceEmpty reAtTime (replaceEmpty reWalkWith (description apt))))"

text \<open>The preferred minute of a recurring task, moved into the visitor's window.\<close>

definition recurringPreferred :: "ParsedAppointment list \<Rightarrow> string \<Rightarrow> RecurringSlot \<Rightarrow> int" where
  "recurringPreferred appts t defaultSlot =
     (case visitorApt appts of
        Some v \<Rightarrow>
          (case (startMins v, endMins v) of
             (Some vs, Some ve) \<Rightarrow>
               if t \<in> set visitorFriendlyTasks
               then vs + ((ve - vs) * (int (indexOf visitorFriendlyTasks t) + 1))
                           div (int (length visitorFriendlyTasks) + 1)
               else parseTimeToMinutes (slotTime defaultSlot)
           | _ \<Rightarrow> parseTimeToMinutes (slotTime defaultSlot))
      | None \<Rightarrow> parseTimeToMinutes (slotTime defaultSlot))"

text \<open>
  The appointment that fulfills a task and has a start minute, when the body of
  \<open>preferences.recurringTasks.forEach\<close> takes its early \<open>return\<close>.
\<close>

definition fulfilledBy :: "ParsedAppointment list \<Rightarrow> string \<Rightarrow> ParsedAppointment option" where
  "fulfilledBy appts t =
     (if t \<in> set (fulfilledTasks appts) then
        (case find (\<lambda>a. fulfillsTask a = Some t) appts of
           Some apt \<Rightarrow> if startMins apt \<noteq> None then Some apt else None
         | None \<Rightarrow> None)
      else None)"

text \<open>
  The item of a recurring task that an appointment fulfills, anchored at the start of
  the appointment; its interval is not registered. The duration noted for it is the one
  of the table.
\<close>

definition fulfilledPlacement :: "nat \<times> string \<Rightarrow> ParsedAppointment \<Rightarrow> Placement" where
  "fulfilledPlacement p apt =
     \<lparr> item = (newItem (''recurring-'' @ numToString (int (fst p)))
                 (snd p @ '' (with '' @ companion apt @ '')'') recurring
                 (case startMins apt of Some s \<Rightarrow> s | None \<Rightarrow> 0))
               \<lparr> suggestedTime := startTime apt \<rparr>,
       pStart = (case startMins apt of Some s \<Rightarrow> s | None \<Rightarrow> 0),
       pDuration = (case lookupSlot (snd p) of Some ds \<Rightarrow> slotDuration ds | None \<Rightarrow> 0),
       how = Fulfilled \<rparr>"

text \<open>The item of a recurring task placed at \<open>mins\<close>; \<open>canOverlap: !defaultSlot.exclusive\<close>.\<close>

definition recurringItem :: "nat \<times> string \<Rightarrow> RecurringSlot \<Rightarrow> int \<Rightarrow> ChecklistItem" where
  "recurringItem p defaultSlot mins =
     (newItem (''recurring-'' @ numToString (int (fst p))) (snd p) recurring mins)
       \<lparr> socialActivity := slotSocial defaultSlot,
         canOverlap := Some (slotExclusive defaultSlot \<noteq> Some True) \<rparr>"

text \<open>The body of \<open>preferences.recurringTasks.forEach((task, index) => ...)\<close>\<close>

definition addRecurring :: "ParsedAppointment list \<Rightarrow> Run \<Rightarrow> nat \<times> string \<Rightarrow> error + Run" where
  "addRecurring appts r p =
     (case fulfilledBy appts (snd p) of
        Some apt \<Rightarrow> Inr (r \<lparr> placed := placed r @ [fulfilledPlacement p apt] \<rparr>)
      | None \<Rightarrow>
          (case lookupSlot (snd p) of
             None \<Rightarrow> Inl TypeError
           | Some defaultSlot \<Rightarrow>
               if exemptFromEndTime defaultSlot then
                 Inr (pushPlaced r
                        (recurringItem p defaultSlot (recurringPreferred appts (snd p) defaultSlot))
                        (recurringPreferred appts (snd p) defaultSlot)
                        (slotDuration defaultSlot) Exempt)
               else
                 Inr (placeItem r
                        (recurringItem p defaultSlot
                           (findNextSlot (scheduledTimes r)
                              (recurringPreferred appts (snd p) defaultSlot)
                              (slotDuration defaultSlot)))
                        (recurringPreferred appts (snd p) defaultSlot)
                        (slotDuration defaultSlot))))"

text \<open>The loop over the recurring tasks; an exception ends it.\<close>

fun addRecurringAll :: "ParsedAppointment list \<Rightarrow> Run \<Rightarrow> (nat \<times> string) list \<Rightarrow> error + Run" where
  "addRecurringAll appts r [] = Inr r"
| "addRecurringAll appts r (p # rest) =
     (case addRecurring appts r p of
        Inl e \<Rightarrow> Inl e
      | Inr r' \<Rightarrow> addRecurringAll appts r' rest)"

definition bonusDefaultTimes :: "int list" where
  "bonusDefaultTimes = [570, 810, 930]"

text \<open>The preferred minute of a bonus activity, moved into the visitor's window.\<close>

definition bonusPreferred :: "ParsedAppointment list \<Rightarrow> nat \<Rightarrow> Activity \<Rightarrow> int" where
  "bonusPreferred appts index a =
     (case visitorApt appts of
        Some v \<Rightarrow>
          (case (startMins v, endMins v) of
             (Some vs, Some ve) \<Rightarrow>
               if indoor a \<and> (category a = sensory \<or> category a = social \<or> category a = creative)
               then vs + ((ve - vs) * (int index + 1)) div 4
               else (if index < length bonusDefaultTimes then bonusDefaultTimes ! index
                     else bonusDefaultTimes ! 0)
           | _ \<Rightarrow> (if index < length bonusDefaultTimes then bonusDefaultTimes ! index
                   else bonusDefaultTimes ! 0))
      | None \<Rightarrow> (if index < length bonusDefaultTimes then bonusDefaultTimes ! index
                 else bonusDefaultTimes ! 0))"

text \<open>The body of \<open>bonusActivities.forEach((activity, index) => ...)\<close>\<close>

definition addBonus :: "ParsedAppointment list \<Rightarrow> Run \<Rightarrow> nat \<times> aref \<Rightarrow> Run" where
  "addBonus appts r p =
     placeItem r
       ((newItem (''bonus-'' @ numToString (int (fst p)))
           (title (snd (snd p)) @ '' ('' @ numToString (duration (snd (snd p))) @ ''min)'') bonus
           (findNextSlot (scheduledTimes r) (bonusPreferred appts (fst p) (snd (snd p)))
              (duration (snd (snd p)))))
          \<lparr> activity := Some (snd p) \<rparr>)
       (bonusPreferred appts (fst p) (snd (snd p))) (duration (snd (snd p)))"

text \<open>
  \<open>survey.parsedAppointments || parseAppointments(survey.appointments || '')\<close>; an empty
  array is truthy.
\<close>

definition appointmentsOf :: "DailySurvey \<Rightarrow> ParsedAppointment list" where
  "appointmentsOf sv =
     (case parsedAppointments sv of
        Some appts \<Rightarrow> appts
      | None \<Rightarrow> parseAppointments (case appointments sv of Some t \<Rightarrow> t | None \<Rightarrow> []))"

text \<open>The state after the feeds, the appointments and the naps.\<close>

definition afterNaps :: "UserPreferences \<Rightarrow> DailySurvey \<Rightarrow> Run" where
  "afterNaps preferences sv =
     foldl (addNap preferences)
       (foldl addAppointment
          (foldl addFeed \<lparr>scheduledTimes = [], placed = []\<rparr>
             (zip [0 ..< length (feedingTimes preferences)] (feedingTimes preferences)))
          (appointmentsOf sv))
       [0 ..< nat (napsPerDay preferences)]"

text \<open>
  The run of \<open>generateChecklist\<close> up to the final sort. The catalog, the age in months
  and the values of \<open>Math.random()\<close> are parameters, as for \<open>selectBonusActivities\<close>.
\<close>

definition generateChecklistRun ::
  "UserPreferences \<Rightarrow> Activity list \<Rightarrow> int \<Rightarrow> (nat \<Rightarrow> real) \<Rightarrow> DailySurvey \<Rightarrow> WeatherData option
     \<Rightarrow> error + Run" where
  "generateChecklistRun preferences activities age rnd sv w =
     (case addRecurringAll (appointmentsOf sv) (afterNaps preferences sv)
             (zip [0 ..< length (recurringTasks preferences)] (recurringTasks preferences)) of
        Inl e \<Rightarrow> Inl e
      | Inr r \<Rightarrow>
          Inr (foldl (addBonus (appointmentsOf sv)) r
                 (zip [0 ..< length (selectBonusActivities activities age rnd sv w 3 None)]
                      (selectBonusActivities activities age rnd sv w 3 None))))"

text \<open>
  The sort key of the final \<open>items.sort\<close>: \<open>parseTimeToMinutes(suggestedTime)\<close>, and 0 for an
  item with no (or an empty) suggested time.
\<close>

definition sortKey :: "ChecklistItem \<Rightarrow> int" where
  "sortKey it =
     (case suggestedTime it of
        Some t \<Rightarrow> if t \<noteq> [] then parseTimeToMinutes t else 0
      | None \<Rightarrow> 0)"

definition generateChecklist ::
  "UserPreferences \<Rightarrow> Activity list \<Rightarrow> int \<Rightarrow> (nat \<Rightarrow> real) \<Rightarrow> DailySurvey \<Rightarrow> WeatherData option
     \<Rightarrow> error + ChecklistItem list" where
  "generateChecklist preferences activities age rnd sv w =
     (case generateChecklistRun preferences activities age rnd sv w of
        Inl e \<Rightarrow> Inl e
      | Inr r \<Rightarrow> Inr (sort_key sortKey (map item (placed r))))"

text \<open>
  The occupied interval of a placement, and the overlap test of the source,
  \<open>start < other.end && end > other.start\<close>.
\<close>

definition overlaps :: "Placement \<Rightarrow> Placement \<Rightarrow> bool" where
  "overlaps p q =
     (pStart p < pStart q + pDuration q \<and> pStart p + pDuration p > pStart q)"

section \<open>Example inputs\<close>

definition zeroRandom :: "nat \<Rightarrow> real" where
  "zeroRandom k = 0"

definition exampleSurvey :: DailySurvey where
  "exampleSurvey =
     \<lparr> energyLevel = medium, stayingHome = False, wantsCrafts = False,
       appointments = None, parsedAppointments = None \<rparr>"

definition cafeVisit :: Activity where
  "cafeVisit =
     \<lparr> actId = ''cafe-visit'', title = ''Cafe visit'', duration = 60, energyRequired = low,
       indoor = True, category = social, ageMin = 0, ageMax = 36,
       weatherDependent = None, tags = [''outing''] \<rparr>"

definition coffeeCatchUp :: Activity where
  "coffeeCatchUp =
     \<lparr> actId = ''coffee-catch-up'', title = ''Coffee catch-up'', duration = 60,
       energyRequired = low, indoor = True, category = social, ageMin = 0, ageMax = 36,
       weatherDependent = None, tags = [''social''] \<rparr>"

definition brunchOuting :: Activity where
  "brunchOuting =
     \<lparr> actId = ''brunch-outing'', title = ''Brunch outing'', duration = 60,
       energyRequired = medium, indoor = True, category = sensory, ageMin = 0, ageMax = 36,
       weatherDependent = None, tags = [''food''] \<rparr>"

definition tummyTime :: Activity where
  "tummyTime =
     \<lparr> actId = ''tummy-time'', title = ''Tummy time'', duration = 10, energyRequired = low,
       indoor = True, category = motor, ageMin = 0, ageMax = 12,
       weatherDependent = None, tags = [''floor''] \<rparr>"

definition cafeCatalog :: "Activity list" where
  "cafeCatalog = [cafeVisit, coffeeCatchUp, brunchOuting]"

text \<open>\<open>DEFAULT_PREFERENCES\<close> of \<open>src/lib/storage.ts\<close>.\<close>

definition DEFAULT_PREFERENCES :: UserPreferences where
  "DEFAULT_PREFERENCES =
     \<lparr> recurringTasks =
         [''Read 5 books'', ''Eating solids'', ''Going for a walk'', ''Having a bath'',
          ''Vestibular play'', ''Crawling/walking practice'', ''Music time''],
       feedingTimes = [''8:00 AM'', ''12:00 PM'', ''4:00 PM'', ''7:30 PM''],
       napsPerDay = 2,
       napDuration = 30 \<rparr>"

definition walkPreferences :: UserPreferences where
  "walkPreferences =
     \<lparr> recurringTasks = [''Going for a walk''], feedingTimes = [''8:00 AM''],
       napsPerDay = 0, napDuration = 30 \<rparr>"

definition walkSurvey :: DailySurvey where
  "walkSurvey = exampleSurvey \<lparr> appointments := Some ''walk with friend at 8am'' \<rparr>"

definition dinnerSurvey :: DailySurvey where
  "dinnerSurvey = exampleSurvey \<lparr> appointments := Some ''dinner 6-8'' \<rparr>"

definition napPreferences :: UserPreferences where
  "napPreferences =
     \<lparr> recurringTasks = [''Having a bath''], feedingTimes = [''10:00 AM''],
       napsPerDay = 1, napDuration = 30 \<rparr>"

text \<open>
  The preferences of the bath scenario of the specification: feeds at 8:00 AM and
  12:00 PM, one nap, and the recurring task \<open>Having a bath\<close>.
\<close>

definition bathPreferences :: UserPreferences where
  "bathPreferences =
     \<lparr> recurringTasks = [''Having a bath''], feedingTimes = [''8:00 AM'', ''12:00 PM''],
       napsPerDay = 1, napDuration = 30 \<rparr>"

definition mixedCatalog :: "Activity list" where
  "mixedCatalog = [cafeVisit, tummyTime, coffeeCatchUp]"

definition dinnerDoctorSurvey :: DailySurvey where
  "dinnerDoctorSurvey = exampleSurvey \<lparr> appointments := Some ''dinner 6-8, doctor at 2pm'' \<rparr>"

text \<open>A long outing: placed at 3:30 PM it would run into the bath.\<close>

definition museumVisit :: Activity where
  "museumVisit =
     \<lparr> actId = ''museum-visit'', title = ''Museum visit'', duration = 160,
       energyRequired = low, indoor = True, category = cognitive, ageMin = 0, ageMax = 36,
       weatherDependent = None, tags = [''outing''] \<rparr>"

definition outingCatalog :: "Activity list" where
  "outingCatalog = [tummyTime, cafeVisit, museumVisit]"

definition bathWalkPreferences :: UserPreferences where
  "bathWalkPreferences =
     \<lparr> recurringTasks = [''Having a bath'', ''Going for a walk''],
       feedingTimes = [''8:00 AM'', ''12:00 PM''], napsPerDay = 1, napDuration = 30 \<rparr>"

definition walkAtSixSurvey :: DailySurvey where
  "walkAtSixSurvey = exampleSurvey \<lparr> appointments := Some ''walk at 6pm'' \<rparr>"

definition fullDaySurvey :: DailySurvey where
  "fullDaySurvey =
     exampleSurvey \<lparr> appointments := Some ''friend 5-7pm, doctor 7am-5:30pm'' \<rparr>"

definition twoBathsPreferences :: UserPreferences where
  "twoBathsPreferences =
     \<lparr> recurringTasks = [''Having a bath'', ''Having a bath''],
       feedingTimes = [''8:00 AM'', ''12:00 PM''], napsPerDay = 1, napDuration = 30 \<rparr>"

section \<open>Invariants of a run\<close>

text \<open>
  Every placement but an appointment-fulfilled one has its interval in the occupied set;
  an item placed by \<open>findNextSlot\<close> at a free slot ends by the day-end boundary and
  overlaps no placement made before it (appointment-fulfilled ones apart, whose
  intervals are never registered).
\<close>

definition runInv :: "Run \<Rightarrow> bool" where
  "runInv r =
     ((\<forall>p \<in> set (placed r). how p \<noteq> Fulfilled \<longrightarrow>
          \<lparr>start = pStart p, end' = pStart p + pDuration p\<rparr> \<in> set (scheduledTimes r))
      \<and> (\<forall>j < length (placed r). how (placed r ! j) = Found \<longrightarrow>
            pStart (placed r ! j) + pDuration (placed r ! j) \<le> 1110
            \<and> (\<forall>i < j. how (placed r ! i) \<noteq> Fulfilled \<longrightarrow>
                  \<not> overlaps (placed r ! i) (placed r ! j))))"

text \<open>The feeds come first: no placement made before a feed is anything but a feed.\<close>

definition anchorsFirst :: "Run \<Rightarrow> bool" where
  "anchorsFirst r =
     (\<forall>j < length (placed r). how (placed r ! j) = Anchor \<longrightarrow>
        (\<forall>i < j. how (placed r ! i) = Anchor))"

text \<open>
  Every occupied interval that is not the interval of an appointment has its end after
  its start.
\<close>

definition positiveInv :: "ParsedAppointment list \<Rightarrow> Run \<Rightarrow> bool" where
  "positiveInv appts r =
     (\<forall>sl \<in> set (scheduledTimes r).
        end' sl > start sl
        \<or> (\<exists>apt \<in> set appts. startMins apt = Some (start sl) \<and> endMins apt = Some (end' sl)))"

text \<open>A later state of a run extends the occupied set and the placements of an earlier one.\<close>

definition grows :: "Run \<Rightarrow> Run \<Rightarrow> bool" where
  "grows r r' =
     ((\<exists>xs. scheduledTimes r' = scheduledTimes r @ xs) \<and> (\<exists>ys. placed r' = placed r @ ys))"

definition allAnchors :: "Run \<Rightarrow> bool" where
  "allAnchors r = (\<forall>p \<in> set (placed r). how p = Anchor)"

text \<open>Only the bath task is placed by the branch that is exempt from the boundary.\<close>

definition exemptInv :: "Run \<Rightarrow> bool" where
  "exemptInv r = (\<forall>p \<in> set (placed r). how p = Exempt \<longrightarrow> task (item p) = ''Having a bath'')"

section \<open>The scheduling claims as the specification states them\<close>

definition nonOverlappable :: "ChecklistItem \<Rightarrow> bool" where
  "nonOverlappable it = (canOverlap it \<noteq> Some True)"

definition isBathTask :: "ChecklistItem \<Rightarrow> bool" where
  "isBathTask it = (task it = ''Having a bath'')"

text \<open>
  Two items that the no-overlap claim is about (distinct, both non-overlappable, neither
  the bath task nor placed by the fallback) and whose intervals overlap.
\<close>

definition violatesNoOverlap :: "Placement \<Rightarrow> Placement \<Rightarrow> bool" where
  "violatesNoOverlap p q =
     (item p \<noteq> item q \<and> nonOverlappable (item p) \<and> nonOverlappable (item q)
      \<and> \<not> isBathTask (item p) \<and> \<not> isBathTask (item q)
      \<and> how p \<noteq> Fallback \<and> how q \<noteq> Fallback \<and> overlaps p q)"


text \<open>The entries of a scored pool that are not food or venue activities.\<close>

definition nonFood :: "(aref \<times> real) list \<Rightarrow> (aref \<times> real) list" where
  "nonFood pool = filter (\<lambda>p. \<not> isCafeOrFoodActivity (snd (fst p))) pool"

text \<open>
  The clauses of an appointment text, as \<open>parseAppointments\<close> cuts them: the parts
  between the delimiters that are not blank. A clause is a range clause when it matches
  the range pattern, so that \<open>parsePart\<close> reads its two ends separately; the intervals
  of the other clauses are a start and a fixed length.
\<close>

definition clauses :: "string \<Rightarrow> string list" where
  "clauses text =
     (if text = [] \<or> trim text = [] then []
      else filter (\<lambda>part. toLowerCase (trim part) \<noteq> [])
             (filter (\<lambda>p. trim p \<noteq> []) (splitRe reDelimiter [] text)))"

definition rangeClause :: "string \<Rightarrow> bool" where
  "rangeClause part = (reMatch reRange (toLowerCase (trim part)) \<noteq> None)"

text \<open>
  The appointments whose two ends nothing orders: those the caller supplied already
  parsed, and otherwise those parsed from the range clauses of the text.
\<close>

definition unorderedAppointments :: "DailySurvey \<Rightarrow> ParsedAppointment list" where
  "unorderedAppointments sv =
     (case parsedAppointments sv of
        Some appts \<Rightarrow> appts
      | None \<Rightarrow> map parsePart
                  (filter rangeClause (clauses (case appointments sv of Some t \<Rightarrow> t | None \<Rightarrow> []))))"

section \<open>Properties of the slot finder\<close>

lemma searchBackward_firstFree:
  "searchBackward st d m = firstFree st d (backwardStarts m)"
proof (induction st d m rule: searchBackward.induct)
  case (1 st d m)
  show ?case
  proof (cases "m \<ge> 420")
    case False
    then show ?thesis
      by (subst searchBackward.simps) (simp add: backwardStarts_def firstFree_def)
  next
    case True
    have n: "(if m \<ge> 420 then nat ((m - 420) div 15) + 1 else 0)
             = Suc (if m - 15 \<ge> 420 then nat ((m - 15 - 420) div 15) + 1 else 0)"
      using True by (auto simp: nat_add_distrib)
    have bs: "backwardStarts m = m # backwardStarts (m - 15)"
      unfolding backwardStarts_def n
      by (simp only: upt_conv_Cons zero_less_Suc list.map map_Suc_upt [symmetric])
         (simp add: comp_def algebra_simps)
    show ?thesis
    proof (cases "isSlotAvailable st m (m + d)")
      case True
      with \<open>m \<ge> 420\<close> show ?thesis
        by (subst searchBackward.simps) (simp add: bs firstFree_def)
    next
      case False
      with \<open>m \<ge> 420\<close> "1.IH" show ?thesis
        by (subst searchBackward.simps) (simp add: bs firstFree_def)
    qed
  qed
qed

lemma searchForward_firstFree:
  "searchForward st d m = firstFree st d (forwardStarts m (END_BY_TIME - d))"
proof (induction st d m rule: searchForward.induct)
  case (1 st d m)
  show ?case
  proof (cases "m \<le> END_BY_TIME - d")
    case False
    then show ?thesis
      by (subst searchForward.simps) (simp add: forwardStarts_def firstFree_def)
  next
    case True
    have n: "(if m \<le> END_BY_TIME - d then nat ((END_BY_TIME - d - m) div 15) + 1 else 0)
             = Suc (if m + 15 \<le> END_BY_TIME - d
                    then nat ((END_BY_TIME - d - (m + 15)) div 15) + 1 else 0)"
      using True by (auto simp: nat_add_distrib)
    have fs: "forwardStarts m (END_BY_TIME - d) = m # forwardStarts (m + 15) (END_BY_TIME - d)"
      unfolding forwardStarts_def n
      by (simp only: upt_conv_Cons zero_less_Suc list.map map_Suc_upt [symmetric])
         (simp add: comp_def algebra_simps)
    show ?thesis
    proof (cases "isSlotAvailable st m (m + d)")
      case True
      with \<open>m \<le> END_BY_TIME - d\<close> show ?thesis
        by (subst searchForward.simps) (simp add: fs firstFree_def)
    next
      case False
      with \<open>m \<le> END_BY_TIME - d\<close> "1.IH" show ?thesis
        by (subst searchForward.simps) (simp add: fs firstFree_def)
    qed
  qed
qed

lemma firstFree_append:
  "firstFree st d (xs @ ys) =
     (case firstFree st d xs of Some m \<Rightarrow> Some m | None \<Rightarrow> firstFree st d ys)"
  by (induction xs) (simp_all add: firstFree_def)

lemma firstFree_Nil: "firstFree st d [] = None"
  by (simp add: firstFree_def)

lemma firstFree_Cons:
  "firstFree st d (m # ms) = (if isSlotAvailable st m (m + d) then Some m else firstFree st d ms)"
  by (simp add: firstFree_def)

text \<open>
  Claim C4. For every occupied set, preferred start and duration, the slot finder tries
  its candidate starts in exactly the order the specification gives: when
  \<open>preferredStart + duration > 1110\<close>, first the backward scan from \<open>1110 - duration\<close> in
  15-minute steps down to 420; then the preferred start itself; then the forward scan
  from \<open>preferredStart + 15\<close> up to \<open>1110 - duration\<close>; then the backward scan from
  \<open>preferredStart - 15\<close> down to 420. It returns the first free candidate of that
  sequence, and the preferred start unchanged when none of them is free.
\<close>

theorem findNextSlot_search_order:
  "findNextSlot occupied preferredStart dur = placeNear occupied preferredStart dur"
proof -
  have e: "END_BY_TIME = 1110" by (simp add: END_BY_TIME_def)
  show ?thesis
    unfolding findNextSlot_def placeNear_def placeNearAttempts_def
      searchBackward_firstFree searchForward_firstFree e
    by (auto simp: firstFree_append firstFree_Nil firstFree_Cons split: option.splits)
qed

theorem findNextSlot_search_order_witness:
  "findNextSlot [\<lparr>start = 480, end' = 510\<rparr>, \<lparr>start = 600, end' = 660\<rparr>] 600 30 = 660
   \<and> findNextSlot [\<lparr>start = 420, end' = 1110\<rparr>] 600 30 = 600
   \<and> findNextSlot [\<lparr>start = 420, end' = 1070\<rparr>, \<lparr>start = 1100, end' = 1110\<rparr>] 1085 30 = 1070"
  unfolding findNextSlot_search_order
  by (simp add: placeNear_def placeNearAttempts_def forwardStarts_def backwardStarts_def
      firstFree_def isSlotAvailable_def END_BY_TIME_def upt_conv_Cons)

section \<open>Properties of the time utilities and of the parser\<close>

lemmas re_defs = reMatch_def reStandard_def seqs_def lit_def ci_def reDigit_def reDigit12_def wsCls_def
       digitChars_def whitespaceChars_def toLowerChar_def toUpperChar_def upperChars_def lowerChars_def

lemma digit_facts:
  assumes "a \<in> set digitChars"
  shows "\<not> isSpace a" "isDigit a" "a \<noteq> CHR ''-''" "a \<noteq> CHR ''+''"
  using assms by (auto simp: isSpace_def isDigit_def digitChars_def whitespaceChars_def)

lemma parseIntDigits2:
  assumes "a \<in> set digitChars" "b \<in> set digitChars"
  shows "parseIntDigits [a, b] = 10 * digitVal a + digitVal b"
  using digit_facts[OF assms(1)] digit_facts[OF assms(2)]
  by (simp add: parseIntDigits_def parseInt_def digitsVal_def)

lemma minute_digits_table:
  "\<forall>a \<in> set tensChars. \<forall>b \<in> set digitChars.
      0 \<le> 10 * digitVal a + digitVal b
    \<and> 10 * digitVal a + digitVal b < 60
    \<and> padStart2 (numToString (10 * digitVal a + digitVal b)) = [a, b]"
  by code_simp

lemma hour_table:
  "\<forall>h \<in> set canonicalHours. \<forall>ap \<in> set meridiems.
      0 \<le> to24 (parseIntDigits h) (toUpperCase ap = ''PM'')
    \<and> numToString (if to24 (parseIntDigits h) (toUpperCase ap = ''PM'') > 12
                     then to24 (parseIntDigits h) (toUpperCase ap = ''PM'') - 12
                     else if to24 (parseIntDigits h) (toUpperCase ap = ''PM'') = 0 then 12
                     else to24 (parseIntDigits h) (toUpperCase ap = ''PM'')) = h
    \<and> (if to24 (parseIntDigits h) (toUpperCase ap = ''PM'') \<ge> 12 then ''PM'' else ''AM'') = ap"
  by code_simp

lemma reStandard_canonical:
  assumes "a \<in> set digitChars" "b \<in> set digitChars" "h \<in> set canonicalHours" "ap \<in> set meridiems"
  shows "reMatch reStandard (h @ '':'' @ [a, b] @ '' '' @ ap) = Some [(3, ap), (2, [a, b]), (1, h)]"
proof -
  have "\<forall>h \<in> set canonicalHours. \<forall>ap \<in> set meridiems.
     reMatch reStandard (h @ '':'' @ [a, b] @ '' '' @ ap) = Some [(3, ap), (2, [a, b]), (1, h)]"
    unfolding canonicalHours_def meridiems_def using assms(1,2)
    by (simp add: re_defs)
  with assms(3,4) show ?thesis by blast
qed

lemma minutesToTimeString_split:
  assumes "0 \<le> H" "0 \<le> mm" "mm < 60"
  shows "minutesToTimeString (H * 60 + mm) =
     numToString (if H > 12 then H - 12 else if H = 0 then 12 else H)
     @ '':'' @ padStart2 (numToString mm) @ '' '' @ (if H \<ge> 12 then ''PM'' else ''AM'')"
proof -
  have d: "(H * 60 + mm) div 60 = H" using assms by simp
  have m: "jsRem (H * 60 + mm) 60 = mm" using assms by (simp add: jsRem_def)
  show ?thesis unfolding minutesToTimeString_def d m by simp
qed

lemma canonicalE:
  assumes "isCanonicalTime s"
  obtains h m1 m2 ap where "h \<in> set canonicalHours" "m1 \<in> set tensChars" "m2 \<in> set digitChars"
    "ap \<in> set meridiems" "s = h @ '':'' @ [m1, m2] @ '' '' @ ap"
  using assms unfolding isCanonicalTime_def canonicalTimes_def by auto

lemma canonicalI:
  "h \<in> set canonicalHours \<Longrightarrow> m1 \<in> set tensChars \<Longrightarrow> m2 \<in> set digitChars \<Longrightarrow>
   ap \<in> set meridiems \<Longrightarrow> isCanonicalTime (h @ '':'' @ [m1, m2] @ '' '' @ ap)"
  unfolding isCanonicalTime_def canonicalTimes_def by auto

text \<open>
  Claim C9. For every canonical time string \<open>s\<close> of the form \<open>H:MM AM\<close> or \<open>H:MM PM\<close>, with
  \<open>H\<close> from 1 to 12 without a leading zero and \<open>MM\<close> from 00 to 59 zero-padded,
  \<open>minutesToTimeString (parseTimeToMinutes s)\<close> is \<open>s\<close> again.
\<close>

theorem time_string_roundtrip:
  assumes "isCanonicalTime s"
  shows "minutesToTimeString (parseTimeToMinutes s) = s"
proof -
  from assms obtain h m1 m2 ap where
    h: "h \<in> set canonicalHours" and m1: "m1 \<in> set tensChars" and d2: "m2 \<in> set digitChars"
    and ap: "ap \<in> set meridiems" and s: "s = h @ '':'' @ [m1, m2] @ '' '' @ ap"
    by (rule canonicalE)
  have d1: "m1 \<in> set digitChars" using m1 by (auto simp: digitChars_def tensChars_def)
  define H where "H = to24 (parseIntDigits h) (toUpperCase ap = ''PM'')"
  define mm where "mm = 10 * digitVal m1 + digitVal m2"
  have "parseTimeToMinutes (h @ '':'' @ [m1, m2] @ '' '' @ ap) = H * 60 + mm"
    unfolding parseTimeToMinutes_def reStandard_canonical[OF d1 d2 h ap] H_def mm_def
    by (simp add: grp_def parseIntDigits2[OF d1 d2])
  then have p: "parseTimeToMinutes s = H * 60 + mm" by (simp only: s)
  from minute_digits_table m1 d2
  have mt: "0 \<le> mm" "mm < 60" "padStart2 (numToString mm) = [m1, m2]"
    unfolding mm_def by blast+
  from hour_table h ap
  have ht: "0 \<le> H" "numToString (if H > 12 then H - 12 else if H = 0 then 12 else H) = h"
    "(if H \<ge> 12 then ''PM'' else ''AM'') = ap"
    unfolding H_def by blast+
  have "minutesToTimeString (parseTimeToMinutes s) = minutesToTimeString (H * 60 + mm)"
    by (simp only: p)
  also have "\<dots> = h @ '':'' @ [m1, m2] @ '' '' @ ap"
    by (simp only: minutesToTimeString_split[OF ht(1) mt(1) mt(2)] ht(2) ht(3) mt(3))
  finally show ?thesis by (simp only: s)
qed

theorem time_string_roundtrip_witness:
  "isCanonicalTime ''8:05 AM'' \<and> minutesToTimeString (parseTimeToMinutes ''8:05 AM'') = ''8:05 AM''"
proof -
  have c: "isCanonicalTime ''8:05 AM''"
    using canonicalI[of "''8''" "CHR ''0''" "CHR ''5''" "''AM''"]
    by (simp add: canonicalHours_def tensChars_def digitChars_def meridiems_def)
  from time_string_roundtrip[OF c] c show ?thesis by simp
qed

text \<open>
  Claim C6. \<open>parseAppointments\<close> applied to the text
  \<open>Friend coming over 2-4pm, doctor appointment at 10am\<close> returns exactly two appointments:
  a \<open>visitor\<close> from minute 840 to minute 960, then an \<open>appointment\<close> from minute 600 to
  minute 660 (the single time 10am with the 60-minute span of that type).
\<close>

theorem parseAppointments_scenario:
  "map (\<lambda>a. (aptType a, startMins a, endMins a, startTime a, endTime a))
       (parseAppointments ''Friend coming over 2-4pm, doctor appointment at 10am'')
     = [(visitor, Some 840, Some 960, Some ''2:00 PM'', Some ''4:00 PM''),
        (appointment, Some 600, Some 660, Some ''10:00 AM'', Some ''11:00 AM'')]"
  by code_simp

subsection \<open>The captures that are parsed as numbers\<close>

lemma pend_mono: "pend N s led fs \<Longrightarrow> pend N s True fs"
proof (induction fs)
  case Nil
  show ?case by simp
next
  case (Cons f fs)
  then show ?case by (cases f) auto
qed

lemma pend_weaken: "pend N s False fs \<Longrightarrow> pend N s led fs"
proof (induction fs)
  case Nil
  show ?case by simp
next
  case (Cons f fs)
  then show ?case by (cases f) auto
qed

lemma pend_shrink:
  "pend N (x # xs) led fs \<Longrightarrow> (led \<Longrightarrow> isDigit x) \<Longrightarrow> pend N xs led' fs"
proof (induction fs)
  case Nil
  show ?case by simp
next
  case (Cons f fs)
  then show ?case by (cases f) auto
qed

lemma digitLed_C: "digitLed (C k) \<Longrightarrow> inCls k x \<Longrightarrow> isDigit x"
  by (cases k) (auto simp: isDigit_def)

lemma take_head:
  assumes "length s < length s0" "s0 \<noteq> []" "isDigit (hd s0)"
  shows "take (length s0 - length s) s0 \<noteq> [] \<and> isDigit (hd (take (length s0 - length s) s0))"
  using assms by (cases s0) (auto simp: take_Cons split: nat.splits)

lemma matchHere_capsOk:
  "matchHere fs s c = Some (c', rest) \<Longrightarrow> pend N s (headLed fs) fs \<Longrightarrow> capsOk N c \<Longrightarrow> capsOk N c'"
proof (induction fs s c arbitrary: c' rest rule: matchHere.induct)
  case (1 s c)
  then show ?case by simp
next
  case (2 k fs s c)
  from "2.prems"(1) obtain x xs where s: "s = x # xs" and k: "inCls k x"
    and m: "matchHere fs xs c = Some (c', rest)"
    by (auto split: list.splits if_splits)
  have "pend N xs (headLed fs) fs"
    using "2.prems"(2) digitLed_C[of k x] k unfolding s
    by (intro pend_shrink[of N x xs "digitLed (C k)" fs]) auto
  from "2.IH"[OF s k m this "2.prems"(3)] show ?case .
next
  case (3 fs s c)
  then show ?case by (auto intro: pend_weaken)
next
  case (4 a b fs s c)
  then show ?case by auto
next
  case (5 a b fs s c)
  show ?case
  proof (cases "matchHere (R a # fs) s c")
    case None
    with "5.prems" have m: "matchHere (R b # fs) s c = Some (c', rest)" by simp
    have "pend N s (headLed (R b # fs)) (R b # fs)"
      using "5.prems"(2) by (cases "digitLed b") (auto intro: pend_mono)
    from "5.IH"(2)[OF None m this "5.prems"(3)] show ?thesis .
  next
    case (Some r)
    with "5.prems" have m: "matchHere (R a # fs) s c = Some (c', rest)" by simp
    have "pend N s (headLed (R a # fs)) (R a # fs)"
      using "5.prems"(2) by (cases "digitLed a") (auto intro: pend_mono)
    from "5.IH"(1)[OF m this "5.prems"(3)] show ?thesis .
  qed
next
  case (6 a fs s c)
  show ?case
  proof (cases "matchHere (R a # fs) s c")
    case None
    with "6.prems" have m: "matchHere fs s c = Some (c', rest)" by simp
    have "pend N s (headLed fs) fs" using "6.prems"(2) by (auto intro: pend_weaken)
    from "6.IH"(2)[OF None m this "6.prems"(3)] show ?thesis .
  next
    case (Some r)
    with "6.prems" have m: "matchHere (R a # fs) s c = Some (c', rest)" by simp
    have "pend N s (headLed (R a # fs)) (R a # fs)"
      using "6.prems"(2) by (auto intro: pend_weaken)
    from "6.IH"(1)[OF m this "6.prems"(3)] show ?thesis .
  qed
next
  case (7 k fs s c)
  have skip: "capsOk N c'" if m: "matchHere fs s c = Some (c', rest)"
      and ih: "\<And>c' rest. matchHere fs s c = Some (c', rest) \<Longrightarrow> pend N s (headLed fs) fs
                  \<Longrightarrow> capsOk N c \<Longrightarrow> capsOk N c'"
  proof -
    have "pend N s (headLed fs) fs" using "7.prems"(2) by (auto intro: pend_weaken)
    from ih[OF m this "7.prems"(3)] show ?thesis .
  qed
  show ?case
  proof (cases s)
    case Nil
    with "7.prems"(1) have m: "matchHere fs s c = Some (c', rest)" by simp
    from skip[OF m "7.IH"(1)[OF Nil]] show ?thesis .
  next
    case (Cons x xs)
    show ?thesis
    proof (cases "inCls k x")
      case False
      with Cons "7.prems"(1) have m: "matchHere fs s c = Some (c', rest)" by simp
      from skip[OF m "7.IH"(4)[OF Cons False]] show ?thesis .
    next
      case True
      show ?thesis
      proof (cases "matchHere (R (StarC k) # fs) xs c")
        case None
        with Cons True "7.prems"(1) have m: "matchHere fs s c = Some (c', rest)" by simp
        from skip[OF m "7.IH"(3)[OF Cons True None]] show ?thesis .
      next
        case (Some r)
        with Cons True "7.prems"(1) have m: "matchHere (R (StarC k) # fs) xs c = Some (c', rest)"
          by simp
        have "pend N xs False fs"
          using "7.prems"(2) unfolding Cons by (intro pend_shrink[of N x xs False fs]) auto
        then have "pend N xs (headLed (R (StarC k) # fs)) (R (StarC k) # fs)" by simp
        from "7.IH"(2)[OF Cons True m this "7.prems"(3)] show ?thesis .
      qed
    qed
  qed
next
  case (8 n a fs s c)
  from "8.prems"(1) have m: "matchHere (R a # EndGrp n s # fs) s c = Some (c', rest)" by simp
  have "pend N s (headLed (R a # EndGrp n s # fs)) (R a # EndGrp n s # fs)"
    using "8.prems"(2) by auto
  from "8.IH"[OF m this "8.prems"(3)] show ?case .
next
  case (9 n s0 fs s c)
  let ?c = "(n, take (length s0 - length s) s0) # c"
  from "9.prems"(1) have m: "matchHere fs s ?c = Some (c', rest)" by simp
  have p: "pend N s (headLed fs) fs" using "9.prems"(2) by (auto intro: pend_weaken)
  have "capsOk N ?c"
    using "9.prems"(2,3) take_head[of s s0] by (auto simp: capsOk_def)
  from "9.IH"[OF m p this] show ?case .
next
  case (10 a fs s c)
  from "10.prems"(1) have n: "matchHere [R a] s c = None"
    and m: "matchHere fs s c = Some (c', rest)"
    by (auto split: option.splits)
  have "pend N s (headLed fs) fs" using "10.prems"(2) by (auto intro: pend_weaken)
  from "10.IH"(2)[OF n m this "10.prems"(3)] show ?case .
next
  case (11 fs s c)
  from "11.prems"(1) have e: "s = []" and m: "matchHere fs s c = Some (c', rest)"
    by (auto split: if_splits)
  have "pend N s (headLed fs) fs" using "11.prems"(2) by (auto intro: pend_weaken)
  from "11.IH"[OF e m this "11.prems"(3)] show ?case .
qed

lemma matchHere_captured:
  "matchHere fs s c = Some (c', rest) \<Longrightarrow> map_of c n \<noteq> None \<or> list_ex (mandFrame n) fs \<Longrightarrow>
   map_of c' n \<noteq> None"
proof (induction fs s c arbitrary: c' rest rule: matchHere.induct)
  case (1 s c)
  then show ?case by simp
next
  case (2 k fs s c)
  then show ?case by (auto split: list.splits if_splits)
next
  case (3 fs s c)
  then show ?case by auto
next
  case (4 a b fs s c)
  then show ?case by auto
next
  case (5 a b fs s c)
  show ?case
  proof (cases "matchHere (R a # fs) s c")
    case None
    with "5.prems" "5.IH"(2)[OF None, of c' rest] show ?thesis by auto
  next
    case (Some r)
    with "5.prems" "5.IH"(1)[of c' rest] show ?thesis by auto
  qed
next
  case (6 a fs s c)
  show ?case
  proof (cases "matchHere (R a # fs) s c")
    case None
    with "6.prems" "6.IH"(2)[OF None, of c' rest] show ?thesis by auto
  next
    case (Some r)
    with "6.prems" "6.IH"(1)[of c' rest] show ?thesis by auto
  qed
next
  case (7 k fs s c)
  show ?case
  proof (cases s)
    case Nil
    with "7.prems" "7.IH"(1)[OF Nil, of c' rest] show ?thesis by auto
  next
    case (Cons x xs)
    show ?thesis
    proof (cases "inCls k x")
      case False
      with Cons "7.prems" "7.IH"(4)[OF Cons False, of c' rest] show ?thesis by auto
    next
      case True
      show ?thesis
      proof (cases "matchHere (R (StarC k) # fs) xs c")
        case None
        with Cons True "7.prems" "7.IH"(3)[OF Cons True None, of c' rest] show ?thesis by auto
      next
        case (Some r)
        with Cons True "7.prems" "7.IH"(2)[OF Cons True, of c' rest] show ?thesis by auto
      qed
    qed
  qed
next
  case (8 m a fs s c)
  then show ?case by auto
next
  case (9 m s0 fs s c)
  from "9.prems"(1) have mt: "matchHere fs s ((m, take (length s0 - length s) s0) # c) = Some (c', rest)"
    by simp
  from "9.prems"(2) have "map_of ((m, take (length s0 - length s) s0) # c) n \<noteq> None
      \<or> list_ex (mandFrame n) fs"
    by auto
  from "9.IH"[OF mt this] show ?case .
next
  case (10 a fs s c)
  from "10.prems"(1) have n: "matchHere [R a] s c = None"
    and m: "matchHere fs s c = Some (c', rest)"
    by (auto split: option.splits)
  with "10.prems"(2) "10.IH"(2)[OF n m] show ?case by auto
next
  case (11 fs s c)
  then show ?case by (auto split: if_splits)
qed

lemma parseInt_digit_led:
  assumes "t \<noteq> []" "isDigit (hd t)"
  shows "parseInt t \<noteq> None"
proof -
  from assms obtain x xs where t: "t = x # xs" and x: "isDigit x" by (cases t) auto
  from x have "x \<in> set digitChars" by (simp add: isDigit_def)
  from digit_facts[OF this] show ?thesis
    by (simp add: parseInt_def t)
qed

lemma reSearch_captures:
  assumes "\<And>s c rest. matchHere [R r] s [] = Some (c, rest) \<Longrightarrow> P c"
  shows "reSearch r pre s = Some (p, c, rest) \<Longrightarrow> P c"
proof (induction s arbitrary: pre)
  case Nil
  then show ?case using assms by (auto split: option.splits)
next
  case (Cons x xs)
  then show ?case using assms by (auto split: option.splits)
qed

lemma digit_groups:
  assumes wf: "wfRe N r" and mand: "\<forall>n \<in> N. mandRe n r"
    and m: "reMatch r s = Some c" and n: "n \<in> N"
  shows "parseInt (grp c n) \<noteq> None"
proof -
  have "capsOk N c' \<and> map_of c' n \<noteq> None"
    if "matchHere [R r] s' [] = Some (c', rest)" for s' c' rest
    using matchHere_capsOk[OF that, of N] matchHere_captured[OF that, of n] wf mand n
    by (simp add: capsOk_def)
  from m obtain p rest where "reSearch r [] s = Some (p, c, rest)"
    by (auto simp: reMatch_def split: option.splits)
  from reSearch_captures[where P = "\<lambda>c. capsOk N c \<and> map_of c n \<noteq> None", OF _ this]
    \<open>\<And>s' c' rest. matchHere [R r] s' [] = Some (c', rest) \<Longrightarrow> capsOk N c' \<and> map_of c' n \<noteq> None\<close>
  have "capsOk N c" "map_of c n \<noteq> None" by blast+
  with n obtain t where "map_of c n = Some t" "t \<noteq> []" "isDigit (hd t)"
    by (auto simp: capsOk_def)
  then show ?thesis using parseInt_digit_led by (simp add: grp_def)
qed

lemma time_regexes_digit_groups:
  "wfRe {1, 2} reStandard \<and> mandRe 1 reStandard \<and> mandRe 2 reStandard
   \<and> wfRe {1} reSimple \<and> mandRe 1 reSimple
   \<and> wfRe {1, 2} re24 \<and> mandRe 1 re24 \<and> mandRe 2 re24
   \<and> wfRe {1} reHour \<and> mandRe 1 reHour"
  by code_simp

text \<open>
  \<open>parseTimeToMinutes\<close> calls \<open>parseInt\<close> only on captures that begin with a digit: the
  result is never \<open>NaN\<close>.
\<close>

lemma parseTimeToMinutes_never_NaN:
  "reMatch reStandard s = Some m \<Longrightarrow> parseInt (grp m 1) \<noteq> None \<and> parseInt (grp m 2) \<noteq> None"
  "reMatch reSimple s = Some m \<Longrightarrow> parseInt (grp m 1) \<noteq> None"
  "reMatch re24 s = Some m \<Longrightarrow> parseInt (grp m 1) \<noteq> None \<and> parseInt (grp m 2) \<noteq> None"
  "reMatch reHour s = Some m \<Longrightarrow> parseInt (grp m 1) \<noteq> None"
  using time_regexes_digit_groups
    digit_groups[of "{1, 2}" reStandard s m] digit_groups[of "{1}" reSimple s m]
    digit_groups[of "{1, 2}" re24 s m] digit_groups[of "{1}" reHour s m]
  by auto

section \<open>Properties of the selection engine\<close>

lemma catalogRefs_distinct: "distinct (map fst (catalogRefs acts))"
  by (simp add: catalogRefs_def)

lemma scoreAll_fst: "map fst (scoreAll cx rnd k refs) = refs"
  by (induction refs arbitrary: k) auto

lemma distinct_fst_imp: "distinct (map fst xs) \<Longrightarrow> distinct xs"
  by (simp add: distinct_map)

lemma scoreAll_distinct:
  assumes "distinct (map fst refs)"
  shows "distinct (map fst (map fst (scoreAll cx rnd k refs)))"
  using assms by (simp add: scoreAll_fst)

lemma scoreAll_refs_distinct:
  assumes "distinct refs"
  shows "distinct (map fst (scoreAll cx rnd k refs))"
  using assms by (simp add: scoreAll_fst)

lemma scoredPool_distinct: "distinct (map fst (scoredPool acts cx rnd))"
proof -
  have "distinct (catalogRefs acts)"
    using catalogRefs_distinct distinct_fst_imp by blast
  then show ?thesis
    unfolding scoredPool_def by (intro distinct_map_filter) (simp add: scoreAll_fst)
qed

lemma sortByScore_set: "set (sortByScore xs) = set xs"
  by (simp add: sortByScore_def)

lemma sortByScore_length: "length (sortByScore xs) = length xs"
  by (simp add: sortByScore_def)

lemma sortByScore_distinct: "distinct (map fst (sortByScore xs)) = distinct (map fst xs)"
  by (simp add: sortByScore_def distinct_map)

lemma firstPass_distinct:
  "distinct (map fst xs) \<Longrightarrow> distinct sel \<Longrightarrow> set sel \<inter> fst ` set xs = {} \<Longrightarrow>
   distinct (firstPass xs count sel used)"
  by (induction xs arbitrary: sel used) (auto simp: image_iff)

lemma secondPass_distinct:
  "distinct sel \<Longrightarrow> distinct (secondPass xs count sel)"
  by (induction xs arbitrary: sel) auto

lemma pickDiverseActivities_distinct:
  "distinct (map fst scored) \<Longrightarrow> distinct (pickDiverseActivities scored count)"
  unfolding pickDiverseActivities_def
  by (intro secondPass_distinct firstPass_distinct) (simp_all add: sortByScore_distinct)

lemma pickForSlot_fresh:
  "pickForSlot xs n count sel used s = Some a \<Longrightarrow> a \<notin> set sel \<and> a \<in> fst ` set xs"
  by (induction xs) (auto split: if_splits)

lemma fillForSlot_fresh:
  "fillForSlot xs sel s = Some a \<Longrightarrow> a \<notin> set sel \<and> a \<in> fst ` set xs"
  by (induction xs) (auto split: if_splits)

lemma slotPass_distinct:
  "distinct sel \<Longrightarrow> distinct (slotPass xs count sts i sel used)"
proof (induction xs count sts i sel used rule: slotPass.induct)
  case (1 xs count sts i sel used)
  show ?case
  proof (cases "int i < count \<and> int (length sel) < count")
    case False
    then show ?thesis using "1.prems" by (subst slotPass.simps) auto
  next
    case True
    show ?thesis
    proof (cases "pickForSlot xs (length xs) count sel used (slotMins sts i)")
      case None
      with True "1.IH"(1) "1.prems" show ?thesis by (subst slotPass.simps) simp
    next
      case (Some a)
      then have "a \<notin> set sel" using pickForSlot_fresh by blast
      with True Some "1.IH"(2) "1.prems" show ?thesis by (subst slotPass.simps) simp
    qed
  qed
qed

lemma fillPass_distinct:
  "distinct sel \<Longrightarrow> distinct (fillPass xs count sts i sel)"
proof (induction xs count sts i sel rule: fillPass.induct)
  case (1 xs count sts i sel)
  show ?case
  proof (cases "int i < count")
    case False
    then show ?thesis using "1.prems" by (subst fillPass.simps) simp
  next
    case True
    show ?thesis
    proof (cases "fillForSlot xs sel (slotMins sts i)")
      case None
      with True "1.IH"(1) "1.prems" show ?thesis by (subst fillPass.simps) simp
    next
      case (Some a)
      then have "a \<notin> set sel" using fillForSlot_fresh by blast
      with True Some "1.IH"(2) "1.prems" show ?thesis by (subst fillPass.simps) simp
    qed
  qed
qed

lemma pickTimed_distinct:
  "distinct (pickDiverseActivitiesWithTimeConstraints scored count sts)"
  unfolding pickDiverseActivitiesWithTimeConstraints_def
  by (intro fillPass_distinct slotPass_distinct) simp

lemma secondPass_mono: "set sel \<subseteq> set (secondPass xs count sel)"
proof (induction xs arbitrary: sel)
  case Nil
  show ?case by simp
next
  case (Cons p rest)
  have "set sel \<subseteq> set (sel @ [fst p])" by auto
  with Cons[of "sel @ [fst p]"] Cons[of sel] show ?case by auto
qed

lemma secondPass_covers:
  "int (length (secondPass xs count sel)) < count \<Longrightarrow> fst ` set xs \<subseteq> set (secondPass xs count sel)"
proof (induction xs arbitrary: sel)
  case Nil
  then show ?case by simp
next
  case (Cons p rest)
  show ?case
  proof (cases "int (length sel) \<ge> count")
    case True
    with Cons.prems show ?thesis by simp
  next
    case False
    show ?thesis
    proof (cases "fst p \<in> set sel")
      case True
      with False Cons secondPass_mono[of sel rest count] show ?thesis by auto
    next
      case notin: False
      with False Cons secondPass_mono[of "sel @ [fst p]" rest count] show ?thesis by auto
    qed
  qed
qed

lemma covers_length:
  assumes "distinct (map fst xs)" "fst ` set xs \<subseteq> set r"
  shows "length xs \<le> length r"
proof -
  have "length xs = card (fst ` set xs)"
    using assms(1) by (metis distinct_card length_map set_map)
  also have "\<dots> \<le> card (set r)" using assms(2) by (simp add: card_mono)
  also have "\<dots> \<le> length r" by (rule card_length)
  finally show ?thesis .
qed

lemma pickDiverseActivities_fills:
  assumes "distinct (map fst scored)" "int (length (pickDiverseActivities scored count)) < count"
  shows "int (length scored) < count"
proof -
  have "fst ` set (sortByScore scored) \<subseteq> set (pickDiverseActivities scored count)"
    using assms(2) unfolding pickDiverseActivities_def by (rule secondPass_covers)
  then have "length (sortByScore scored) \<le> length (pickDiverseActivities scored count)"
    using assms(1) by (intro covers_length) (simp_all add: sortByScore_distinct)
  with assms(2) show ?thesis by (simp add: sortByScore_length)
qed

lemma fillForSlot_None_nonFood:
  "fillForSlot xs sel s = None \<Longrightarrow> fst ` set (nonFood xs) \<subseteq> set sel"
  by (induction xs) (auto simp: nonFood_def split: if_splits)

lemma fillPass_fills_nonFood:
  "length sel = i \<or> fst ` set (nonFood xs) \<subseteq> set sel \<Longrightarrow>
     int (length (fillPass xs count sts i sel)) \<ge> count
     \<or> fst ` set (nonFood xs) \<subseteq> set (fillPass xs count sts i sel)"
proof (induction xs count sts i sel rule: fillPass.induct)
  case (1 xs count sts i sel)
  show ?case
  proof (cases "int i < count")
    case False
    then have "fillPass xs count sts i sel = sel" by (subst fillPass.simps) simp
    with False "1.prems" show ?thesis by auto
  next
    case True
    show ?thesis
    proof (cases "fillForSlot xs sel (slotMins sts i)")
      case None
      then have c: "fst ` set (nonFood xs) \<subseteq> set sel"
        by (rule fillForSlot_None_nonFood)
      have e: "fillPass xs count sts i sel = fillPass xs count sts (Suc i) sel"
        using True None by (subst fillPass.simps) simp
      from "1.IH"(1)[OF True None] c show ?thesis
        unfolding e by blast
    next
      case (Some a)
      have e: "fillPass xs count sts i sel = fillPass xs count sts (Suc i) (sel @ [a])"
        using True Some by (subst fillPass.simps) simp
      have "length (sel @ [a]) = Suc i \<or> fst ` set (nonFood xs) \<subseteq> set (sel @ [a])"
        using "1.prems" by auto
      from "1.IH"(2)[OF True Some this] show ?thesis
        unfolding e .
    qed
  qed
qed

lemma nonFood_sortByScore: "set (nonFood (sortByScore xs)) = set (nonFood xs)"
  by (simp add: nonFood_def sortByScore_set)

lemma nonFood_distinct: "distinct (map fst xs) \<Longrightarrow> distinct (map fst (nonFood xs))"
  unfolding nonFood_def by (rule distinct_map_filter)

lemma pickTimed_fills_nonFood:
  assumes "distinct (map fst scored)"
    and "int (length (pickDiverseActivitiesWithTimeConstraints scored count sts)) < count"
  shows "int (length (nonFood scored)) < count"
proof -
  let ?r = "pickDiverseActivitiesWithTimeConstraints scored count sts"
  from fillPass_fills_nonFood[of
      "slotPass (sortByScore scored) count sts 0 [] {}"
      "length (slotPass (sortByScore scored) count sts 0 [] {})" "sortByScore scored" count sts]
  have "int (length ?r) \<ge> count \<or> fst ` set (nonFood (sortByScore scored)) \<subseteq> set ?r"
    unfolding pickDiverseActivitiesWithTimeConstraints_def by simp
  with assms(2) have "fst ` set (nonFood scored) \<subseteq> set ?r"
    by (simp add: nonFood_sortByScore)
  then have "length (nonFood scored) \<le> length ?r"
    using assms(1) by (intro covers_length nonFood_distinct)
  with assms(2) show ?thesis by simp
qed

lemma nonFood_length: "length (nonFood xs) \<le> length xs"
  by (simp add: nonFood_def)

lemma firstPass_subset: "set (firstPass xs count sel used) \<subseteq> set sel \<union> fst ` set xs"
proof (induction xs arbitrary: sel used)
  case Nil
  show ?case by simp
next
  case (Cons p rest)
  from Cons[of "sel @ [fst p]" "insert (category (snd (fst p))) used"] Cons[of sel used]
  show ?case by auto
qed

lemma secondPass_subset: "set (secondPass xs count sel) \<subseteq> set sel \<union> fst ` set xs"
proof (induction xs arbitrary: sel)
  case Nil
  show ?case by simp
next
  case (Cons p rest)
  from Cons[of "sel @ [fst p]"] Cons[of sel]
  show ?case by auto
qed

lemma pickDiverseActivities_subset:
  "set (pickDiverseActivities scored count) \<subseteq> fst ` set scored"
proof -
  have "set (firstPass (sortByScore scored) count [] {}) \<subseteq> fst ` set scored"
    using firstPass_subset[of "sortByScore scored" count "[]" "{}"] by (simp add: sortByScore_set)
  then show ?thesis
    unfolding pickDiverseActivities_def
    using secondPass_subset[of "sortByScore scored" count "firstPass (sortByScore scored) count [] {}"]
    by (auto simp: sortByScore_set)
qed

lemma slotPass_subset:
  "set (slotPass xs count sts i sel used) \<subseteq> set sel \<union> fst ` set xs"
proof (induction xs count sts i sel used rule: slotPass.induct)
  case (1 xs count sts i sel used)
  show ?case
  proof (cases "int i < count \<and> int (length sel) < count")
    case False
    then show ?thesis by (subst slotPass.simps) auto
  next
    case True
    show ?thesis
    proof (cases "pickForSlot xs (length xs) count sel used (slotMins sts i)")
      case None
      with True "1.IH"(1) show ?thesis by (subst slotPass.simps) simp
    next
      case (Some a)
      then have "a \<in> fst ` set xs" using pickForSlot_fresh by blast
      with True Some "1.IH"(2) show ?thesis by (subst slotPass.simps) auto
    qed
  qed
qed

lemma fillPass_subset:
  "set (fillPass xs count sts i sel) \<subseteq> set sel \<union> fst ` set xs"
proof (induction xs count sts i sel rule: fillPass.induct)
  case (1 xs count sts i sel)
  show ?case
  proof (cases "int i < count")
    case False
    then show ?thesis by (subst fillPass.simps) simp
  next
    case True
    show ?thesis
    proof (cases "fillForSlot xs sel (slotMins sts i)")
      case None
      with True "1.IH"(1) show ?thesis by (subst fillPass.simps) simp
    next
      case (Some a)
      then have "a \<in> fst ` set xs" using fillForSlot_fresh by blast
      with True Some "1.IH"(2) show ?thesis by (subst fillPass.simps) auto
    qed
  qed
qed

lemma pickTimed_subset:
  "set (pickDiverseActivitiesWithTimeConstraints scored count sts) \<subseteq> fst ` set scored"
proof -
  have "set (slotPass (sortByScore scored) count sts 0 [] {}) \<subseteq> fst ` set scored"
    using slotPass_subset[of "sortByScore scored" count sts 0 "[]" "{}"]
    by (simp add: sortByScore_set)
  then show ?thesis
    unfolding pickDiverseActivitiesWithTimeConstraints_def
    using fillPass_subset[of "sortByScore scored" count sts
        "length (slotPass (sortByScore scored) count sts 0 [] {})"
        "slotPass (sortByScore scored) count sts 0 [] {}"]
    by (auto simp: sortByScore_set)
qed

lemma scoredPool_subset: "fst ` set (scoredPool acts cx rnd) \<subseteq> set (catalogRefs acts)"
proof -
  have "fst ` set (scoreAll cx rnd 0 refs) = set refs" for refs
    using scoreAll_fst[of cx rnd 0 refs] by (metis set_map)
  then have "fst ` set (scoreAll cx rnd 0
        (filter (\<lambda>a. \<not> overlapsWithRecurringTasks (snd a)) (catalogRefs acts)))
      \<subseteq> set (catalogRefs acts)"
    by simp
  then show ?thesis unfolding scoredPool_def by auto
qed

lemma selectBonusActivities_subset:
  "set (selectBonusActivities acts age rnd sv w count sts) \<subseteq> set (catalogRefs acts)"
proof -
  have a: "set (pickDiverseActivities (scoredPool acts cx rnd) count) \<subseteq> set (catalogRefs acts)" for cx
    using pickDiverseActivities_subset[of "scoredPool acts cx rnd" count] scoredPool_subset[of acts cx rnd]
    by blast
  have b: "set (pickDiverseActivitiesWithTimeConstraints (scoredPool acts cx rnd) count ts)
             \<subseteq> set (catalogRefs acts)" for cx ts
    using pickTimed_subset[of "scoredPool acts cx rnd" count ts] scoredPool_subset[of acts cx rnd]
    by blast
  show ?thesis
    unfolding selectBonusActivities_def using a b by (simp split: option.splits)
qed

text \<open>
  Claim C10. The list \<open>selectBonusActivities\<close> returns contains no activity twice, on the
  plain path and on the time-constrained path: the returned references are pairwise
  distinct, and so are the catalog positions they point to.
\<close>

theorem selectBonusActivities_distinct:
  "distinct (selectBonusActivities acts age rnd sv w count sts)
   \<and> distinct (map fst (selectBonusActivities acts age rnd sv w count sts))"
proof -
  have d: "distinct (selectBonusActivities acts age rnd sv w count sts)"
    unfolding selectBonusActivities_def
    by (auto split: option.splits
        intro!: pickTimed_distinct pickDiverseActivities_distinct scoredPool_distinct)
  have "inj_on fst (set (catalogRefs acts))"
    using catalogRefs_distinct[of acts] by (simp add: distinct_map)
  then have "inj_on fst (set (selectBonusActivities acts age rnd sv w count sts))"
    by (rule inj_on_subset) (rule selectBonusActivities_subset)
  with d show ?thesis by (simp add: distinct_map)
qed

text \<open>
  Claim C8, as amended. When \<open>selectBonusActivities\<close> returns fewer than \<open>count\<close>
  activities, the filtered candidate pool holds fewer than \<open>count\<close> activities that are not
  food or venue activities; and when no slot times were supplied, it holds fewer than
  \<open>count\<close> activities at all. The function is total: no input makes it raise.
\<close>

theorem selectBonusActivities_underfilled:
  assumes "int (length (selectBonusActivities acts age rnd sv w count sts)) < count"
  shows "int (length (nonFood (scoredPool acts \<lparr>survey = sv, weather = w, babyAgeMonths = age\<rparr> rnd)))
           < count
     \<and> (sts = None \<or> sts = Some [] \<longrightarrow>
          int (length (scoredPool acts \<lparr>survey = sv, weather = w, babyAgeMonths = age\<rparr> rnd)) < count)"
proof -
  let ?pool = "scoredPool acts \<lparr>survey = sv, weather = w, babyAgeMonths = age\<rparr> rnd"
  have dp: "distinct (map fst ?pool)" by (rule scoredPool_distinct)
  show ?thesis
  proof (cases "sts = None \<or> sts = Some []")
    case True
    then have "selectBonusActivities acts age rnd sv w count sts = pickDiverseActivities ?pool count"
      by (auto simp: selectBonusActivities_def)
    with assms pickDiverseActivities_fills[OF dp] have "int (length ?pool) < count" by simp
    with nonFood_length[of ?pool] show ?thesis by simp
  next
    case False
    then obtain ts where ts: "sts = Some ts" "ts \<noteq> []" by (cases sts) auto
    have "selectBonusActivities acts age rnd sv w count sts
            = pickDiverseActivitiesWithTimeConstraints ?pool count ts"
      using ts by (simp add: selectBonusActivities_def)
    with assms pickTimed_fills_nonFood[OF dp, of count ts] ts show ?thesis by auto
  qed
qed

theorem selectBonusActivities_underfilled_witness:
  "int (length (selectBonusActivities mixedCatalog 6 zeroRandom exampleSurvey None 3
                  (Some [870, 900, 930]))) < 3
   \<and> int (length (nonFood (scoredPool mixedCatalog
          \<lparr>survey = exampleSurvey, weather = None, babyAgeMonths = 6\<rparr> zeroRandom))) < 3
   \<and> int (length (selectBonusActivities [tummyTime, cafeVisit] 6 zeroRandom exampleSurvey None 3 None)) < 3
   \<and> int (length (scoredPool [tummyTime, cafeVisit]
          \<lparr>survey = exampleSurvey, weather = None, babyAgeMonths = 6\<rparr> zeroRandom)) < 3"
proof -
  have h: "int (length (selectBonusActivities mixedCatalog 6 zeroRandom
             exampleSurvey None 3 (Some [870, 900, 930]))) < 3"
    by code_simp
  have g: "int (length (selectBonusActivities [tummyTime, cafeVisit] 6 zeroRandom exampleSurvey None 3 None)) < 3"
    by code_simp
  from selectBonusActivities_underfilled[OF h] selectBonusActivities_underfilled[OF g] h g
  show ?thesis by simp
qed

text \<open>
  Claim C8 as stated fails on the time-constrained path: with three food or venue
  activities of 60 minutes in the pool and the slot times 870, 900 and 930, nothing is
  selected although the pool holds three activities.
\<close>

theorem selectBonusActivities_underfilled_counterexample:
  "int (length (selectBonusActivities cafeCatalog 6 zeroRandom exampleSurvey None 3
                  (Some [870, 900, 930]))) < 3
   \<and> \<not> int (length (scoredPool cafeCatalog
              \<lparr>survey = exampleSurvey, weather = None, babyAgeMonths = 6\<rparr> zeroRandom)) < 3"
  by code_simp

lemma pickForSlot_cutoff:
  "pickForSlot xs n count sel used s = Some a \<Longrightarrow>
     \<not> (isCafeOrFoodActivity (snd a) \<and> s + duration (snd a) > 900)"
  by (induction xs) (auto split: if_splits)

lemma fillForSlot_cutoff:
  "fillForSlot xs sel s = Some a \<Longrightarrow>
     \<not> (isCafeOrFoodActivity (snd a) \<and> s + duration (snd a) > 900)"
  by (induction xs) (auto split: if_splits)

lemma replacementPool_cutoff:
  assumes "p \<in> set (replacementPool acts cx rnd excl (Some s))"
  shows "\<not> (isCafeOrFoodActivity (snd (fst p)) \<and> s + duration (snd (fst p)) > 900)"
proof -
  let ?refs = "filter (\<lambda>a. \<not> (isCafeOrFoodActivity (snd a) \<and> s + duration (snd a) > 900))
                (filter (\<lambda>a. actId (snd a) \<notin> set excl)
                   (filter (\<lambda>a. \<not> overlapsWithRecurringTasks (snd a)) (catalogRefs acts)))"
  from assms have "p \<in> set (scoreAll cx rnd 0 ?refs)"
    by (simp add: replacementPool_def sortByScore_set)
  then have "fst p \<in> set (map fst (scoreAll cx rnd 0 ?refs))" by (simp del: scoreAll_fst)
  then have "fst p \<in> set ?refs" by (simp only: scoreAll_fst)
  then show ?thesis by simp
qed

lemma getReplacementActivity_cutoff:
  assumes "getReplacementActivity acts age rnd sv w excl (Some s) = Some a"
  shows "\<not> (isCafeOrFoodActivity (snd a) \<and> s + duration (snd a) > 900)"
proof -
  from assms obtain p where
    "p \<in> set (replacementPool acts \<lparr>survey = sv, weather = w, babyAgeMonths = age\<rparr> rnd excl (Some s))"
    "fst p = a"
    by (auto simp: getReplacementActivity_def split: list.splits)
  with replacementPool_cutoff show ?thesis by blast
qed

lemma slotPass_never:
  assumes cafe: "isCafeOrFoodActivity (snd a)"
  shows "a \<notin> set sel \<Longrightarrow> \<forall>i. slotMins sts i + duration (snd a) > 900 \<Longrightarrow>
     a \<notin> set (slotPass xs count sts i sel used)"
proof (induction xs count sts i sel used rule: slotPass.induct)
  case (1 xs count sts i sel used)
  show ?case
  proof (cases "int i < count \<and> int (length sel) < count")
    case False
    then show ?thesis using "1.prems"(1) by (subst slotPass.simps) auto
  next
    case True
    show ?thesis
    proof (cases "pickForSlot xs (length xs) count sel used (slotMins sts i)")
      case None
      with True "1.IH"(1) "1.prems" show ?thesis by (subst slotPass.simps) simp
    next
      case (Some b)
      have "b \<noteq> a" using pickForSlot_cutoff[OF Some] cafe spec[OF "1.prems"(2), of i] by auto
      with True Some "1.IH"(2) "1.prems" show ?thesis by (subst slotPass.simps) simp
    qed
  qed
qed

lemma fillPass_never:
  assumes cafe: "isCafeOrFoodActivity (snd a)"
  shows "a \<notin> set sel \<Longrightarrow> \<forall>i. slotMins sts i + duration (snd a) > 900 \<Longrightarrow>
     a \<notin> set (fillPass xs count sts i sel)"
proof (induction xs count sts i sel rule: fillPass.induct)
  case (1 xs count sts i sel)
  show ?case
  proof (cases "int i < count")
    case False
    then show ?thesis using "1.prems"(1) by (subst fillPass.simps) simp
  next
    case True
    show ?thesis
    proof (cases "fillForSlot xs sel (slotMins sts i)")
      case None
      with True "1.IH"(1) "1.prems" show ?thesis by (subst fillPass.simps) simp
    next
      case (Some b)
      have "b \<noteq> a" using fillForSlot_cutoff[OF Some] cafe spec[OF "1.prems"(2), of i] by auto
      with True Some "1.IH"(2) "1.prems" show ?thesis by (subst fillPass.simps) simp
    qed
  qed
qed

lemma pickTimed_never:
  assumes "isCafeOrFoodActivity (snd a)" "\<forall>i. slotMins sts i + duration (snd a) > 900"
  shows "a \<notin> set (pickDiverseActivitiesWithTimeConstraints scored count sts)"
  unfolding pickDiverseActivitiesWithTimeConstraints_def
  using assms(2) by (intro fillPass_never[OF assms(1)] slotPass_never[OF assms(1)]) simp_all

lemma slotMins_ge:
  assumes "\<forall>t \<in> set sts. 0 \<le> t" "i < length sts"
  shows "sts ! i \<le> slotMins sts i"
proof -
  have "0 \<le> last sts" using assms by (cases sts rule: rev_cases) auto
  then show ?thesis using assms(2) by (auto simp: slotMins_def)
qed

text \<open>
  Claim C7. For a slot whose start time is \<open>s\<close>, a food or venue activity of duration
  \<open>d\<close> with \<open>s + d > 900\<close> is skipped: neither loop of
  \<open>pickDiverseActivitiesWithTimeConstraints\<close> pushes it for that slot, and
  \<open>getReplacementActivity\<close> called with the scheduled time \<open>s\<close> does not return it. An
  activity that is cut off at every slot is not in the selection at all. The scenario of
  the specification is the instance \<open>d = 60\<close>, \<open>s = 870\<close>.
\<close>

theorem cafe_cutoff:
  assumes "isCafeOrFoodActivity (snd a)" and "s + duration (snd a) > 900"
  shows "pickForSlot srt n count sel used s \<noteq> Some a
     \<and> fillForSlot srt sel s \<noteq> Some a
     \<and> getReplacementActivity acts age rnd sv w excl (Some s) \<noteq> Some a
     \<and> ((\<forall>i. slotMins sts i + duration (snd a) > 900)
          \<longrightarrow> a \<notin> set (pickDiverseActivitiesWithTimeConstraints scored count sts))"
proof -
  have 1: "pickForSlot srt n count sel used s \<noteq> Some a"
    using pickForSlot_cutoff[of srt n count sel used s a] assms by blast
  have 2: "fillForSlot srt sel s \<noteq> Some a"
    using fillForSlot_cutoff[of srt sel s a] assms by blast
  have 3: "getReplacementActivity acts age rnd sv w excl (Some s) \<noteq> Some a"
    using getReplacementActivity_cutoff[of acts age rnd sv w excl s a] assms by blast
  have 4: "a \<notin> set (pickDiverseActivitiesWithTimeConstraints scored count sts)"
    if "\<forall>i. slotMins sts i + duration (snd a) > 900"
    using pickTimed_never[OF assms(1) that, of scored count] .
  from 1 2 3 4 show ?thesis by blast
qed

theorem cafe_cutoff_witness:
  "isCafeOrFoodActivity cafeVisit \<and> duration cafeVisit = 60 \<and> (870::int) + 60 > 900
   \<and> pickForSlot [((0, cafeVisit), 50)] 1 3 [] {} 870 = None
   \<and> fillForSlot [((0, cafeVisit), 50)] [] 870 = None
   \<and> getReplacementActivity [cafeVisit] 6 zeroRandom exampleSurvey None [] (Some 870) = None
   \<and> (0, cafeVisit) \<notin> set (pickDiverseActivitiesWithTimeConstraints [((0, cafeVisit), 50)] 3 [870])"
proof -
  have c: "isCafeOrFoodActivity (snd (0::nat, cafeVisit))" by code_simp
  have d: "duration cafeVisit = 60" by (simp add: cafeVisit_def)
  have l: "870 + duration (snd (0::nat, cafeVisit)) > 900" by (simp add: d)
  have s: "\<forall>i. slotMins [870] i + duration (snd (0::nat, cafeVisit)) > 900"
    by (simp add: slotMins_def d)
  have p: "pickForSlot [((0, cafeVisit), 50)] 1 3 [] {} 870 \<in> {None, Some (0, cafeVisit)}"
    by simp
  have f: "fillForSlot [((0, cafeVisit), 50)] [] 870 \<in> {None, Some (0, cafeVisit)}"
    by simp
  have g: "getReplacementActivity [cafeVisit] 6 zeroRandom exampleSurvey None [] (Some 870)
             \<in> {None, Some (0, cafeVisit)}"
    by (auto simp: getReplacementActivity_def replacementPool_def catalogRefs_def sortByScore_def
          split: list.splits)
  from cafe_cutoff[OF c l, where srt = "[((0, cafeVisit), 50)]" and n = 1 and count = 3
      and sel = "[]" and used = "{}" and acts = "[cafeVisit]" and age = 6 and rnd = zeroRandom
      and sv = exampleSurvey and w = None and excl = "[]" and sts = "[870]"
      and scored = "[((0, cafeVisit), 50)]"]
    c d s p f g
  show ?thesis by auto
qed

section \<open>Properties of a run of generateChecklist\<close>

lemma firstFree_available:
  "firstFree st d xs = Some x \<Longrightarrow> isSlotAvailable st x (x + d)"
  by (auto simp: firstFree_def find_Some_iff)

lemma findNextSlot_found:
  assumes "\<not> reachesFallback st p d"
  shows "isSlotAvailable st (findNextSlot st p d) (findNextSlot st p d + d)"
  using assms firstFree_available[of st d]
  unfolding reachesFallback_def findNextSlot_def searchBackward_firstFree searchForward_firstFree
  by (auto split: option.splits if_splits)

lemma noEndLimit_no_conflict:
  "isSlotAvailableNoEndLimit st s e \<Longrightarrow> sl \<in> set st \<Longrightarrow> \<not> (s < end' sl \<and> e > start sl)"
  by (induction st) (auto split: if_splits)

lemma available_facts:
  assumes "isSlotAvailable st s e"
  shows "e \<le> 1110" and "sl \<in> set st \<Longrightarrow> \<not> (s < end' sl \<and> e > start sl)"
  using assms noEndLimit_no_conflict[of st s e sl]
  by (auto simp: isSlotAvailable_def END_BY_TIME_def split: if_splits)

lemma runInv_empty: "runInv \<lparr>scheduledTimes = [], placed = []\<rparr>"
  by (simp add: runInv_def)

lemma runInv_push:
  assumes inv: "runInv r"
    and found: "h = Found \<Longrightarrow> isSlotAvailable (scheduledTimes r) m (m + d)"
  shows "runInv (pushPlaced r it m d h)"
proof -
  let ?q = "\<lparr>item = it, pStart = m, pDuration = d, how = h\<rparr>"
  let ?r = "pushPlaced r it m d h"
  have st: "scheduledTimes ?r = scheduledTimes r @ [\<lparr>start = m, end' = m + d\<rparr>]"
    and pl: "placed ?r = placed r @ [?q]"
    by (simp_all add: pushPlaced_def)
  have a: "\<forall>p \<in> set (placed ?r). how p \<noteq> Fulfilled \<longrightarrow>
          \<lparr>start = pStart p, end' = pStart p + pDuration p\<rparr> \<in> set (scheduledTimes ?r)"
    using inv unfolding st pl runInv_def by auto
  have b: "pStart (placed ?r ! j) + pDuration (placed ?r ! j) \<le> 1110
            \<and> (\<forall>i < j. how (placed ?r ! i) \<noteq> Fulfilled \<longrightarrow>
                  \<not> overlaps (placed ?r ! i) (placed ?r ! j))"
    if j: "j < length (placed ?r)" and f: "how (placed ?r ! j) = Found" for j
  proof (cases "j < length (placed r)")
    case True
    then have e: "placed ?r ! j = placed r ! j" "\<And>i. i < j \<Longrightarrow> placed ?r ! i = placed r ! i"
      by (simp_all add: pl nth_append)
    with inv True f show ?thesis unfolding runInv_def by auto
  next
    case False
    with j have jl: "j = length (placed r)" by (simp add: pl)
    then have e: "placed ?r ! j = ?q" by (simp add: pl)
    with f have "h = Found" by simp
    then have av: "isSlotAvailable (scheduledTimes r) m (m + d)" by (rule found)
    have "\<not> overlaps (placed ?r ! i) ?q" if i: "i < j" and nf: "how (placed ?r ! i) \<noteq> Fulfilled" for i
    proof -
      from i jl have ei: "placed ?r ! i = placed r ! i" by (simp add: pl nth_append)
      from i jl have "placed r ! i \<in> set (placed r)" by simp
      with inv nf ei have "\<lparr>start = pStart (placed r ! i),
            end' = pStart (placed r ! i) + pDuration (placed r ! i)\<rparr> \<in> set (scheduledTimes r)"
        unfolding runInv_def by auto
      from available_facts(2)[OF av this] show ?thesis
        unfolding ei overlaps_def by auto
    qed
    with available_facts(1)[OF av] e show ?thesis by simp
  qed
  from a b show ?thesis unfolding runInv_def by blast
qed

lemma runInv_push_other:
  "runInv r \<Longrightarrow> h \<noteq> Found \<Longrightarrow> runInv (pushPlaced r it m d h)"
  by (rule runInv_push) simp_all

lemma runInv_placeItem: "runInv r \<Longrightarrow> runInv (placeItem r it p d)"
  unfolding placeItem_def
  by (rule runInv_push) (auto dest: findNextSlot_found split: if_splits)

lemma runInv_addAppointment: "runInv r \<Longrightarrow> runInv (addAppointment r apt)"
  by (auto simp: runInv_def addAppointment_def split: option.splits)

lemma runInv_fulfilled:
  assumes "runInv r" "how q = Fulfilled"
  shows "runInv (r \<lparr> placed := placed r @ [q] \<rparr>)"
proof -
  have old: "j < length (placed r)"
    if "how ((placed r @ [q]) ! j) = Found" "j < Suc (length (placed r))" for j
    using that assms(2) by (cases "j = length (placed r)") (auto simp: nth_append)
  have a: "\<forall>p \<in> set (placed r @ [q]). how p \<noteq> Fulfilled \<longrightarrow>
          \<lparr>start = pStart p, end' = pStart p + pDuration p\<rparr> \<in> set (scheduledTimes r)"
    using assms unfolding runInv_def by auto
  have b: "pStart ((placed r @ [q]) ! j) + pDuration ((placed r @ [q]) ! j) \<le> 1110
            \<and> (\<forall>i < j. how ((placed r @ [q]) ! i) \<noteq> Fulfilled \<longrightarrow>
                  \<not> overlaps ((placed r @ [q]) ! i) ((placed r @ [q]) ! j))"
    if j: "j < length (placed r @ [q])" and f: "how ((placed r @ [q]) ! j) = Found" for j
  proof -
    from old[OF f] j have jl: "j < length (placed r)" by simp
    then have e: "(placed r @ [q]) ! j = placed r ! j"
      "\<And>i. i < j \<Longrightarrow> (placed r @ [q]) ! i = placed r ! i"
      by (simp_all add: nth_append)
    from f have "how (placed r ! j) = Found" by (simp only: e(1))
    with assms(1) jl have "pStart (placed r ! j) + pDuration (placed r ! j) \<le> 1110
       \<and> (\<forall>i < j. how (placed r ! i) \<noteq> Fulfilled \<longrightarrow> \<not> overlaps (placed r ! i) (placed r ! j))"
      unfolding runInv_def by blast
    then show ?thesis by (simp add: e)
  qed
  from a b show ?thesis unfolding runInv_def by simp
qed

lemma foldl_invariant:
  assumes "P r" "\<And>r x. P r \<Longrightarrow> P (f r x)"
  shows "P (foldl f r xs)"
  using assms(1) by (induction xs arbitrary: r) (simp_all add: assms(2))

lemma runInv_addFeed: "runInv r \<Longrightarrow> runInv (addFeed r p)"
  unfolding addFeed_def by (rule runInv_push_other) simp_all

lemma runInv_addNap: "runInv r \<Longrightarrow> runInv (addNap prefs r i)"
  unfolding addNap_def Let_def by (rule runInv_placeItem)

lemma runInv_addBonus: "runInv r \<Longrightarrow> runInv (addBonus appts r p)"
  unfolding addBonus_def by (rule runInv_placeItem)

lemma runInv_afterNaps: "runInv (afterNaps prefs sv)"
  unfolding afterNaps_def
  by (rule foldl_invariant[where P = runInv, OF _ runInv_addNap],
      rule foldl_invariant[where P = runInv, OF _ runInv_addAppointment],
      rule foldl_invariant[where P = runInv, OF _ runInv_addFeed],
      rule runInv_empty)

lemma addRecurring_cases:
  assumes "addRecurring appts r p = Inr r'"
  obtains (fulfilled) apt where "fulfilledBy appts (snd p) = Some apt"
      "r' = r \<lparr> placed := placed r @ [fulfilledPlacement p apt] \<rparr>"
    | (exempt) ds where "fulfilledBy appts (snd p) = None" "lookupSlot (snd p) = Some ds"
      "exemptFromEndTime ds"
      "r' = pushPlaced r (recurringItem p ds (recurringPreferred appts (snd p) ds))
              (recurringPreferred appts (snd p) ds) (slotDuration ds) Exempt"
    | (placed) ds where "fulfilledBy appts (snd p) = None" "lookupSlot (snd p) = Some ds"
      "\<not> exemptFromEndTime ds"
      "r' = placeItem r
              (recurringItem p ds
                 (findNextSlot (scheduledTimes r) (recurringPreferred appts (snd p) ds)
                    (slotDuration ds)))
              (recurringPreferred appts (snd p) ds) (slotDuration ds)"
proof (cases "fulfilledBy appts (snd p)")
  case (Some apt)
  with assms have "r' = r \<lparr> placed := placed r @ [fulfilledPlacement p apt] \<rparr>"
    by (simp add: addRecurring_def)
  with Some show thesis by (rule fulfilled)
next
  case None
  show thesis
  proof (cases "lookupSlot (snd p)")
    case n: None
    with None assms show thesis by (simp add: addRecurring_def)
  next
    case (Some ds)
    show thesis
    proof (cases "exemptFromEndTime ds")
      case True
      with None Some assms show thesis by (intro exempt[of ds]) (simp_all add: addRecurring_def)
    next
      case False
      with None Some assms show thesis by (intro placed[of ds]) (simp_all add: addRecurring_def)
    qed
  qed
qed

lemma runInv_addRecurring:
  assumes "runInv r" "addRecurring appts r p = Inr r'"
  shows "runInv r'"
  using assms(2)
proof (cases rule: addRecurring_cases)
  case (fulfilled apt)
  with assms(1) show ?thesis by (simp add: runInv_fulfilled fulfilledPlacement_def)
next
  case (exempt ds)
  with assms(1) show ?thesis by (simp add: runInv_push_other)
next
  case (placed ds)
  with assms(1) show ?thesis by (simp add: runInv_placeItem)
qed

lemma runInv_addRecurringAll:
  "runInv r \<Longrightarrow> addRecurringAll appts r ps = Inr r' \<Longrightarrow> runInv r'"
proof (induction ps arbitrary: r)
  case Nil
  then show ?case by simp
next
  case (Cons p ps)
  from Cons.prems(2) obtain r1 where 1: "addRecurring appts r p = Inr r1"
    and 2: "addRecurringAll appts r1 ps = Inr r'"
    by (auto split: sum.splits)
  from Cons.IH[OF runInv_addRecurring[OF Cons.prems(1) 1] 2] show ?case .
qed

lemma run_split:
  assumes "generateChecklistRun prefs acts age rnd sv w = Inr r"
  obtains r0 where
    "addRecurringAll (appointmentsOf sv) (afterNaps prefs sv)
           (zip [0 ..< length (recurringTasks prefs)] (recurringTasks prefs)) = Inr r0"
    "r = foldl (addBonus (appointmentsOf sv)) r0
                 (zip [0 ..< length (selectBonusActivities acts age rnd sv w 3 None)]
                      (selectBonusActivities acts age rnd sv w 3 None))"
  using assms by (auto simp: generateChecklistRun_def split: sum.splits)

lemma runInv_run:
  assumes "generateChecklistRun prefs acts age rnd sv w = Inr r"
  shows "runInv r"
  using assms
proof (cases rule: run_split)
  case (1 r0)
  have "runInv r0" using runInv_addRecurringAll[OF runInv_afterNaps 1(1)] .
  then show ?thesis unfolding 1(2)
    by (rule foldl_invariant[where P = runInv, OF _ runInv_addBonus])
qed

lemma findNextSlot_fallback:
  "reachesFallback st p d \<Longrightarrow> findNextSlot st p d = p"
  by (simp add: reachesFallback_def findNextSlot_def)

lemma placeItem_how:
  "how (last (placed (placeItem r it p d))) = Found
     \<longleftrightarrow> isSlotAvailable (scheduledTimes r) (findNextSlot (scheduledTimes r) p d)
           (findNextSlot (scheduledTimes r) p d + d)"
proof -
  have "\<not> isSlotAvailable (scheduledTimes r) (findNextSlot (scheduledTimes r) p d)
           (findNextSlot (scheduledTimes r) p d + d)"
    if "reachesFallback (scheduledTimes r) p d"
    using that findNextSlot_fallback[OF that] by (simp add: reachesFallback_def)
  then show ?thesis
    using findNextSlot_found[of "scheduledTimes r" p d]
    by (auto simp: placeItem_def pushPlaced_def)
qed

lemma generateChecklist_items:
  assumes "generateChecklist prefs acts age rnd sv w = Inr its"
  obtains r where "generateChecklistRun prefs acts age rnd sv w = Inr r"
    "set its = item ` set (placed r)" "length its = length (placed r)"
  using assms by (auto simp: generateChecklist_def split: sum.splits)

subsection \<open>The feeds come first\<close>

lemma allAnchors_anchorsFirst: "allAnchors r \<Longrightarrow> anchorsFirst r"
  by (simp add: allAnchors_def anchorsFirst_def)

lemma allAnchors_addFeed: "allAnchors r \<Longrightarrow> allAnchors (addFeed r p)"
  by (simp add: allAnchors_def addFeed_def pushPlaced_def)

lemma anchorsFirst_append:
  assumes "anchorsFirst r" "how q \<noteq> Anchor" "placed r' = placed r @ [q]"
  shows "anchorsFirst r'"
proof -
  have "\<forall>i < j. how (placed r' ! i) = Anchor"
    if j: "j < length (placed r')" and a: "how (placed r' ! j) = Anchor" for j
  proof -
    from j a assms(2,3) have jl: "j < length (placed r)"
      by (cases "j = length (placed r)") (auto simp: nth_append)
    then have e: "placed r' ! j = placed r ! j" "\<And>i. i < j \<Longrightarrow> placed r' ! i = placed r ! i"
      by (simp_all add: assms(3) nth_append)
    from a have "how (placed r ! j) = Anchor" by (simp only: e(1))
    with assms(1) jl have "\<forall>i < j. how (placed r ! i) = Anchor"
      unfolding anchorsFirst_def by blast
    then show ?thesis by (simp add: e)
  qed
  then show ?thesis unfolding anchorsFirst_def by blast
qed

lemma anchorsFirst_addAppointment: "anchorsFirst r \<Longrightarrow> anchorsFirst (addAppointment r apt)"
  by (auto simp: anchorsFirst_def addAppointment_def split: option.splits)

lemma anchorsFirst_placeItem: "anchorsFirst r \<Longrightarrow> anchorsFirst (placeItem r it p d)"
  by (erule anchorsFirst_append[where q = "\<lparr>item = it, pStart = findNextSlot (scheduledTimes r) p d,
        pDuration = d, how = (if reachesFallback (scheduledTimes r) p d then Fallback else Found)\<rparr>"])
     (simp_all add: placeItem_def pushPlaced_def)

lemma anchorsFirst_addNap: "anchorsFirst r \<Longrightarrow> anchorsFirst (addNap prefs r i)"
  unfolding addNap_def Let_def by (rule anchorsFirst_placeItem)

lemma anchorsFirst_addBonus: "anchorsFirst r \<Longrightarrow> anchorsFirst (addBonus appts r p)"
  unfolding addBonus_def by (rule anchorsFirst_placeItem)

lemma anchorsFirst_addRecurring:
  assumes "anchorsFirst r" "addRecurring appts r p = Inr r'"
  shows "anchorsFirst r'"
  using assms(2)
proof (cases rule: addRecurring_cases)
  case (fulfilled apt)
  show ?thesis
    by (rule anchorsFirst_append[OF assms(1), where q = "fulfilledPlacement p apt"])
       (simp_all add: fulfilled fulfilledPlacement_def)
next
  case (exempt ds)
  show ?thesis
    by (rule anchorsFirst_append[OF assms(1), where q = "\<lparr>item = recurringItem p ds (recurringPreferred appts (snd p) ds),
          pStart = recurringPreferred appts (snd p) ds, pDuration = slotDuration ds, how = Exempt\<rparr>"])
       (simp_all add: exempt pushPlaced_def)
next
  case (placed ds)
  with assms(1) show ?thesis by (simp add: anchorsFirst_placeItem)
qed

lemma anchorsFirst_addRecurringAll:
  "anchorsFirst r \<Longrightarrow> addRecurringAll appts r ps = Inr r' \<Longrightarrow> anchorsFirst r'"
proof (induction ps arbitrary: r)
  case Nil
  then show ?case by simp
next
  case (Cons p ps)
  from Cons.prems(2) obtain r1 where 1: "addRecurring appts r p = Inr r1"
    and 2: "addRecurringAll appts r1 ps = Inr r'"
    by (auto split: sum.splits)
  from Cons.IH[OF anchorsFirst_addRecurring[OF Cons.prems(1) 1] 2] show ?case .
qed

lemma anchorsFirst_afterNaps: "anchorsFirst (afterNaps prefs sv)"
proof -
  have "allAnchors (foldl addFeed \<lparr>scheduledTimes = [], placed = []\<rparr> xs)" for xs
    by (rule foldl_invariant[where P = allAnchors, OF _ allAnchors_addFeed])
       (simp add: allAnchors_def)
  then have "anchorsFirst (foldl addFeed \<lparr>scheduledTimes = [], placed = []\<rparr> xs)" for xs
    by (rule allAnchors_anchorsFirst)
  then show ?thesis
    unfolding afterNaps_def
    by (intro foldl_invariant[where P = anchorsFirst, OF _ anchorsFirst_addNap]
              foldl_invariant[where P = anchorsFirst, OF _ anchorsFirst_addAppointment])
qed

lemma anchorsFirst_run:
  assumes "generateChecklistRun prefs acts age rnd sv w = Inr r"
  shows "anchorsFirst r"
  using assms
proof (cases rule: run_split)
  case (1 r0)
  have "anchorsFirst r0" using anchorsFirst_addRecurringAll[OF anchorsFirst_afterNaps 1(1)] .
  then show ?thesis unfolding 1(2)
    by (rule foldl_invariant[where P = anchorsFirst, OF _ anchorsFirst_addBonus])
qed

lemma overlaps_sym: "overlaps p q = overlaps q p"
  by (auto simp: overlaps_def)

text \<open>
  Claim C1, as amended. After a run of \<open>generateChecklist\<close>, two distinct items do not
  overlap when each of them is a feed or was placed by \<open>findNextSlot\<close> at a free slot
  (so neither is the bath task, an item placed by the no-free-slot fallback or a
  recurring task anchored to the appointment that fulfills it) and they are not both
  feeds. The flag \<open>canOverlap\<close> plays no part.
\<close>

theorem no_overlap_after_run:
  assumes "generateChecklistRun prefs acts age rnd sv w = Inr r"
    and "i < length (placed r)" and "j < length (placed r)" and "i \<noteq> j"
    and "how (placed r ! i) = Anchor \<or> how (placed r ! i) = Found"
    and "how (placed r ! j) = Anchor \<or> how (placed r ! j) = Found"
    and "how (placed r ! i) = Found \<or> how (placed r ! j) = Found"
  shows "\<not> overlaps (placed r ! i) (placed r ! j)"
proof -
  have inv: "runInv r" and af: "anchorsFirst r"
    using assms(1) by (rule runInv_run, rule anchorsFirst_run)
  have ordered: "\<not> overlaps (placed r ! a) (placed r ! b)"
    if "a < b" "b < length (placed r)"
      "how (placed r ! a) = Anchor \<or> how (placed r ! a) = Found"
      "how (placed r ! b) = Anchor \<or> how (placed r ! b) = Found"
      "how (placed r ! a) = Found \<or> how (placed r ! b) = Found" for a b
  proof (cases "how (placed r ! b) = Found")
    case True
    from that(3) have "how (placed r ! a) \<noteq> Fulfilled" by auto
    with inv that(1,2) True show ?thesis unfolding runInv_def by blast
  next
    case False
    with that(4,5) have "how (placed r ! b) = Anchor" "how (placed r ! a) = Found" by auto
    with af that(1,2) show ?thesis unfolding anchorsFirst_def by fastforce
  qed
  show ?thesis
  proof (cases "i < j")
    case True
    with ordered[of i j] assms show ?thesis by blast
  next
    case False
    with assms(4) have "j < i" by simp
    with ordered[of j i] assms overlaps_sym[of "placed r ! i" "placed r ! j"] show ?thesis by blast
  qed
qed


subsection \<open>The theorems at concrete runs\<close>

lemma default_run_hows:
  "map_sum id (\<lambda>r. map how (placed r))
     (generateChecklistRun DEFAULT_PREFERENCES [] 6 zeroRandom exampleSurvey None)
   = Inr [Anchor, Anchor, Anchor, Anchor, Found, Found, Found, Found, Found, Exempt,
          Found, Found, Found]"
  by code_simp

lemma default_run:
  obtains r where
    "generateChecklistRun DEFAULT_PREFERENCES [] 6 zeroRandom exampleSurvey None = Inr r"
    "map how (placed r) = [Anchor, Anchor, Anchor, Anchor, Found, Found, Found, Found, Found,
       Exempt, Found, Found, Found]"
  using default_run_hows
  by (cases "generateChecklistRun DEFAULT_PREFERENCES [] 6 zeroRandom exampleSurvey None") auto

lemma map_eq_nth:
  assumes "map f xs = ys" "i < length ys"
  shows "i < length xs" "f (xs ! i) = ys ! i"
  using assms by auto

theorem no_overlap_after_run_witness:
  "(case generateChecklistRun DEFAULT_PREFERENCES [] 6 zeroRandom exampleSurvey None of
      Inl e \<Rightarrow> False
    | Inr r \<Rightarrow> how (placed r ! 0) = Anchor \<and> how (placed r ! 4) = Found
               \<and> \<not> overlaps (placed r ! 0) (placed r ! 4))"
proof -
  obtain r where r: "generateChecklistRun DEFAULT_PREFERENCES [] 6 zeroRandom exampleSurvey None = Inr r"
    and h: "map how (placed r) = [Anchor, Anchor, Anchor, Anchor, Found, Found, Found, Found,
       Found, Exempt, Found, Found, Found]"
    by (rule default_run)
  have 0: "0 < length (placed r)" "how (placed r ! 0) = Anchor"
    using map_eq_nth[OF h, of 0] by simp_all
  have 4: "4 < length (placed r)" "how (placed r ! 4) = Found"
    using map_eq_nth[OF h, of 4] by simp_all
  have "\<not> overlaps (placed r ! 0) (placed r ! 4)"
    using no_overlap_after_run[OF r 0(1) 4(1)] 0(2) 4(2) by simp
  with 0 4 show ?thesis by (simp add: r)
qed


text \<open>
  Claim C1 as stated fails: with one feed at 8:00 AM, the recurring task
  \<open>Going for a walk\<close> and the appointment text \<open>walk with friend at 8am\<close>, the walk is
  anchored to the appointment at 8:00 AM for its 45 minutes and overlaps the feed; both
  items are non-overlappable, neither is the bath task and neither was placed by the
  fallback.
\<close>

theorem no_overlap_counterexample:
  "(case generateChecklistRun walkPreferences [] 6 zeroRandom walkSurvey None of
      Inl e \<Rightarrow> False
    | Inr r \<Rightarrow> violatesNoOverlap (placed r ! 0) (placed r ! 1))"
  by code_simp


subsection \<open>Registered intervals\<close>

lemma foldl_invariant_set:
  assumes "P r" "\<And>r x. x \<in> set xs \<Longrightarrow> P r \<Longrightarrow> P (f r x)"
  shows "P (foldl f r xs)"
  using assms by (induction xs arbitrary: r) simp_all

lemma positiveInv_push:
  "positiveInv appts r \<Longrightarrow> d > 0 \<Longrightarrow> positiveInv appts (pushPlaced r it m d h)"
  by (auto simp: positiveInv_def pushPlaced_def)

lemma positiveInv_placeItem:
  "positiveInv appts r \<Longrightarrow> d > 0 \<Longrightarrow> positiveInv appts (placeItem r it p d)"
  unfolding placeItem_def by (rule positiveInv_push)

lemma positiveInv_addAppointment:
  "positiveInv appts r \<Longrightarrow> apt \<in> set appts \<Longrightarrow> positiveInv appts (addAppointment r apt)"
  by (auto simp: positiveInv_def addAppointment_def split: option.splits)

lemma positiveInv_addFeed: "positiveInv appts r \<Longrightarrow> positiveInv appts (addFeed r p)"
  unfolding addFeed_def by (rule positiveInv_push) simp_all

lemma positiveInv_addNap:
  "napDuration prefs \<ge> 0 \<Longrightarrow> positiveInv appts r \<Longrightarrow> positiveInv appts (addNap prefs r i)"
  unfolding addNap_def Let_def by (rule positiveInv_placeItem) auto

lemma lookupSlot_positive: "lookupSlot t = Some ds \<Longrightarrow> slotDuration ds > 0"
  by (auto simp: lookupSlot_def recurringTimeSlots_def defaultRecurringSlot_def
      split: option.splits if_splits)

lemma positiveInv_addRecurring:
  assumes "positiveInv loose r" "addRecurring appts r p = Inr r'"
  shows "positiveInv loose r'"
  using assms(2)
proof (cases rule: addRecurring_cases)
  case (fulfilled apt)
  with assms(1) show ?thesis by (simp add: positiveInv_def)
next
  case (exempt ds)
  with assms(1) lookupSlot_positive[of "snd p" ds] show ?thesis by (simp add: positiveInv_push)
next
  case (placed ds)
  with assms(1) lookupSlot_positive[of "snd p" ds] show ?thesis by (simp add: positiveInv_placeItem)
qed

lemma positiveInv_addRecurringAll:
  "positiveInv loose r \<Longrightarrow> addRecurringAll appts r ps = Inr r' \<Longrightarrow> positiveInv loose r'"
proof (induction ps arbitrary: r)
  case Nil
  then show ?case by simp
next
  case (Cons p ps)
  from Cons.prems(2) obtain r1 where 1: "addRecurring appts r p = Inr r1"
    and 2: "addRecurringAll appts r1 ps = Inr r'"
    by (auto split: sum.splits)
  from Cons.IH[OF positiveInv_addRecurring[OF Cons.prems(1) 1] 2] show ?case .
qed

lemma parseAppointments_clauses: "parseAppointments text = map parsePart (clauses text)"
  by (simp add: parseAppointments_def clauses_def)

text \<open>
  A clause that is not a range clause gets its end from its start: 60 minutes later for
  an appointment, 90 minutes later otherwise.
\<close>

lemma parsePart_single:
  assumes "\<not> rangeClause part" and "startMins (parsePart part) = Some s"
    and "endMins (parsePart part) = Some e"
  shows "e > s"
  using assms
  by (auto simp: parsePart_def rangeClause_def Let_def split: option.splits if_splits)

lemma appointmentsOf_ordered:
  assumes "apt \<in> set (appointmentsOf sv)" and "apt \<notin> set (unorderedAppointments sv)"
    and "startMins apt = Some s" and "endMins apt = Some e"
  shows "e > s"
proof (cases "parsedAppointments sv")
  case (Some appts)
  with assms(1,2) show ?thesis by (simp add: appointmentsOf_def unorderedAppointments_def)
next
  case None
  with assms(1) obtain part
    where p: "part \<in> set (clauses (case appointments sv of Some t \<Rightarrow> t | None \<Rightarrow> []))"
    and a: "apt = parsePart part"
    by (auto simp: appointmentsOf_def parseAppointments_clauses)
  with assms(2) None have "\<not> rangeClause part"
    by (auto simp: unorderedAppointments_def)
  with assms(3,4) a show ?thesis using parsePart_single by blast
qed

lemma positiveInv_addAppointment_parsed:
  assumes "positiveInv (unorderedAppointments sv) r" and "apt \<in> set (appointmentsOf sv)"
  shows "positiveInv (unorderedAppointments sv) (addAppointment r apt)"
proof (cases "apt \<in> set (unorderedAppointments sv)")
  case True
  with assms(1) show ?thesis by (simp add: positiveInv_addAppointment)
next
  case False
  show ?thesis
  proof (cases "startMins apt")
    case None
    with assms(1) show ?thesis by (simp add: addAppointment_def)
  next
    case (Some s)
    show ?thesis
    proof (cases "endMins apt")
      case None
      with assms(1) Some show ?thesis by (simp add: addAppointment_def)
    next
      case (Some e)
      with \<open>startMins apt = Some s\<close> appointmentsOf_ordered[OF assms(2) False]
      have "e > s" by simp
      with assms(1) Some \<open>startMins apt = Some s\<close> show ?thesis
        by (auto simp: positiveInv_def addAppointment_def)
    qed
  qed
qed

lemma positiveInv_afterNaps:
  assumes "napDuration prefs \<ge> 0"
  shows "positiveInv (unorderedAppointments sv) (afterNaps prefs sv)"
  unfolding afterNaps_def
proof (rule foldl_invariant[where P = "positiveInv (unorderedAppointments sv)",
        OF _ positiveInv_addNap[OF assms]])
  show "positiveInv (unorderedAppointments sv)
     (foldl addAppointment
       (foldl addFeed \<lparr>scheduledTimes = [], placed = []\<rparr>
         (zip [0..<length (feedingTimes prefs)] (feedingTimes prefs)))
       (appointmentsOf sv))"
  proof (rule foldl_invariant_set[where P = "positiveInv (unorderedAppointments sv)"])
    show "positiveInv (unorderedAppointments sv)
       (foldl addFeed \<lparr>scheduledTimes = [], placed = []\<rparr>
         (zip [0..<length (feedingTimes prefs)] (feedingTimes prefs)))"
      by (rule foldl_invariant[where P = "positiveInv (unorderedAppointments sv)",
            OF _ positiveInv_addFeed]) (simp add: positiveInv_def)
  next
    fix r x
    assume "x \<in> set (appointmentsOf sv)" "positiveInv (unorderedAppointments sv) r"
    then show "positiveInv (unorderedAppointments sv) (addAppointment r x)"
      by (simp add: positiveInv_addAppointment_parsed)
  qed
qed

lemma selected_duration_positive:
  assumes "list_all (\<lambda>a. duration a > 0) acts"
    and "p \<in> set (zip idx (selectBonusActivities acts age rnd sv w count sts))"
  shows "duration (snd (snd p)) > 0"
proof -
  from assms(2) have "snd p \<in> set (selectBonusActivities acts age rnd sv w count sts)"
    by (metis in_set_zipE prod.collapse)
  with selectBonusActivities_subset have "snd p \<in> set (catalogRefs acts)" by blast
  then have "snd (snd p) \<in> set acts"
    unfolding catalogRefs_def by (metis in_set_zipE prod.collapse)
  with assms(1) show ?thesis by (simp add: list_all_iff)
qed

text \<open>
  Claim C3, as amended. Every interval registered into \<open>scheduledTimes\<close> for a feed, a
  nap, a recurring task or a bonus activity is \<open>start\<close> to \<open>start + duration\<close> with a
  positive duration, hence has its end after its start, when \<open>napDuration\<close> is not
  negative and the durations of the catalog are positive; and so has the interval of an
  appointment parsed from a clause with a single time, which ends 60 or 90 minutes after
  its start. Only the interval of an appointment parsed from a range clause, or of an
  appointment that the caller supplied already parsed, is registered as it is, whatever
  the order of its two ends.
\<close>

theorem registered_intervals:
  assumes "generateChecklistRun prefs acts age rnd sv w = Inr r"
    and "napDuration prefs \<ge> 0" and "list_all (\<lambda>a. duration a > 0) acts"
    and "sl \<in> set (scheduledTimes r)"
  shows "end' sl > start sl
     \<or> (\<exists>apt \<in> set (unorderedAppointments sv).
           startMins apt = Some (start sl) \<and> endMins apt = Some (end' sl))"
  using assms(1)
proof (cases rule: run_split)
  case (1 r0)
  have "positiveInv (unorderedAppointments sv) r0"
    using positiveInv_addRecurringAll[OF positiveInv_afterNaps[OF assms(2)] 1(1)] .
  then have "positiveInv (unorderedAppointments sv) r"
    unfolding 1(2)
  proof (rule foldl_invariant_set[where P = "positiveInv (unorderedAppointments sv)"])
    fix r' x
    assume x: "x \<in> set (zip [0..<length (selectBonusActivities acts age rnd sv w 3 None)]
                (selectBonusActivities acts age rnd sv w 3 None))"
      and inv: "positiveInv (unorderedAppointments sv) r'"
    from selected_duration_positive[OF assms(3) x] have "duration (snd (snd x)) > 0" .
    with inv show "positiveInv (unorderedAppointments sv) (addBonus (appointmentsOf sv) r' x)"
      unfolding addBonus_def by (rule positiveInv_placeItem)
  qed
  with assms(4) show ?thesis unfolding positiveInv_def by blast
qed

lemma dinner_run:
  "map_sum id (\<lambda>r. scheduledTimes r)
     (generateChecklistRun napPreferences [tummyTime, cafeVisit] 6 zeroRandom dinnerSurvey None)
   = Inr [\<lparr>start = 600, end' = 630\<rparr>, \<lparr>start = 1080, end' = 480\<rparr>,
          \<lparr>start = 630, end' = 660\<rparr>, \<lparr>start = 1080, end' = 1110\<rparr>,
          \<lparr>start = 570, end' = 580\<rparr>, \<lparr>start = 810, end' = 870\<rparr>]"
  by code_simp

text \<open>
  The text \<open>dinner 6-8, doctor at 2pm\<close> has a range clause and a clause with a single
  time. Both appointments are registered, the second as 840 to 900; only the first is
  among the appointments whose ends nothing orders.
\<close>

lemma dinner_doctor_run:
  "map_sum id (\<lambda>r. (scheduledTimes r,
        map (\<lambda>a. (startMins a, endMins a)) (appointmentsOf dinnerDoctorSurvey),
        map (\<lambda>a. (startMins a, endMins a)) (unorderedAppointments dinnerDoctorSurvey)))
     (generateChecklistRun napPreferences [tummyTime, cafeVisit] 6 zeroRandom
        dinnerDoctorSurvey None)
   = Inr ([\<lparr>start = 600, end' = 630\<rparr>, \<lparr>start = 1080, end' = 480\<rparr>,
           \<lparr>start = 840, end' = 900\<rparr>, \<lparr>start = 630, end' = 660\<rparr>,
           \<lparr>start = 1080, end' = 1110\<rparr>, \<lparr>start = 570, end' = 580\<rparr>,
           \<lparr>start = 900, end' = 960\<rparr>],
          [(Some 1080, Some 480), (Some 840, Some 900)],
          [(Some 1080, Some 480)])"
  by code_simp

theorem registered_intervals_witness:
  "(case generateChecklistRun napPreferences [tummyTime, cafeVisit] 6 zeroRandom
          dinnerDoctorSurvey None of
      Inl e \<Rightarrow> False
    | Inr r \<Rightarrow> napDuration napPreferences \<ge> 0
               \<and> list_all (\<lambda>a. duration a > 0) [tummyTime, cafeVisit]
               \<and> scheduledTimes r ! 2 \<in> set (scheduledTimes r)
               \<and> (\<exists>apt \<in> set (appointmentsOf dinnerDoctorSurvey).
                     startMins apt = Some (start (scheduledTimes r ! 2))
                     \<and> endMins apt = Some (end' (scheduledTimes r ! 2)))
               \<and> end' (scheduledTimes r ! 2) > start (scheduledTimes r ! 2))"
proof -
  obtain r where r: "generateChecklistRun napPreferences [tummyTime, cafeVisit] 6 zeroRandom
      dinnerDoctorSurvey None = Inr r"
    and st: "scheduledTimes r = [\<lparr>start = 600, end' = 630\<rparr>, \<lparr>start = 1080, end' = 480\<rparr>,
           \<lparr>start = 840, end' = 900\<rparr>, \<lparr>start = 630, end' = 660\<rparr>,
           \<lparr>start = 1080, end' = 1110\<rparr>, \<lparr>start = 570, end' = 580\<rparr>,
           \<lparr>start = 900, end' = 960\<rparr>]"
    and ap: "map (\<lambda>a. (startMins a, endMins a)) (appointmentsOf dinnerDoctorSurvey)
               = [(Some 1080, Some 480), (Some 840, Some 900)]"
    and un: "map (\<lambda>a. (startMins a, endMins a)) (unorderedAppointments dinnerDoctorSurvey)
               = [(Some 1080, Some 480)]"
    using dinner_doctor_run
    by (cases "generateChecklistRun napPreferences [tummyTime, cafeVisit] 6 zeroRandom
                 dinnerDoctorSurvey None")
       auto
  have n: "napDuration napPreferences \<ge> 0" by (simp add: napPreferences_def)
  have d: "list_all (\<lambda>a. duration a > 0) [tummyTime, cafeVisit]"
    by (simp add: tummyTime_def cafeVisit_def)
  have m: "scheduledTimes r ! 2 \<in> set (scheduledTimes r)" by (simp add: st)
  have "(Some 840, Some 900)
          \<in> set (map (\<lambda>a. (startMins a, endMins a)) (appointmentsOf dinnerDoctorSurvey))"
    by (simp add: ap)
  then have a: "\<exists>apt \<in> set (appointmentsOf dinnerDoctorSurvey).
           startMins apt = Some (start (scheduledTimes r ! 2))
           \<and> endMins apt = Some (end' (scheduledTimes r ! 2))"
    by (auto simp: st)
  have "\<not> (\<exists>apt \<in> set (unorderedAppointments dinnerDoctorSurvey).
           startMins apt = Some (start (scheduledTimes r ! 2))
           \<and> endMins apt = Some (end' (scheduledTimes r ! 2)))"
  proof
    assume "\<exists>apt \<in> set (unorderedAppointments dinnerDoctorSurvey).
           startMins apt = Some (start (scheduledTimes r ! 2))
           \<and> endMins apt = Some (end' (scheduledTimes r ! 2))"
    then obtain apt where "apt \<in> set (unorderedAppointments dinnerDoctorSurvey)"
      "startMins apt = Some 840" "endMins apt = Some 900"
      by (auto simp: st)
    then have "(Some 840, Some 900)
        \<in> set (map (\<lambda>a. (startMins a, endMins a)) (unorderedAppointments dinnerDoctorSurvey))"
      by force
    then show False by (simp add: un)
  qed
  with registered_intervals[OF r n d m] n d m a show ?thesis by (simp add: r)
qed

text \<open>
  Claim C3 as stated fails: the appointment text \<open>dinner 6-8\<close> is parsed to the start
  6 PM (1080) and the end 8 AM (480), and that interval is registered.
\<close>

theorem registered_intervals_counterexample:
  "(case generateChecklistRun napPreferences [tummyTime, cafeVisit] 6 zeroRandom dinnerSurvey None of
      Inl e \<Rightarrow> False
    | Inr r \<Rightarrow> scheduledTimes r ! 1 = \<lparr>start = 1080, end' = 480\<rparr>
               \<and> scheduledTimes r ! 1 \<in> set (scheduledTimes r)
               \<and> \<not> end' (scheduledTimes r ! 1) > start (scheduledTimes r ! 1))"
  by code_simp

subsection \<open>The bath task\<close>

lemma grows_refl: "grows r r"
  by (simp add: grows_def)

lemma grows_trans: "grows a b \<Longrightarrow> grows b c \<Longrightarrow> grows a c"
  by (auto simp: grows_def)

lemma grows_push: "grows r (pushPlaced r it m d h)"
  by (simp add: grows_def pushPlaced_def)

lemma grows_placeItem: "grows r (placeItem r it p d)"
  unfolding placeItem_def by (rule grows_push)

lemma grows_addBonus: "grows r (addBonus appts r p)"
  unfolding addBonus_def by (rule grows_placeItem)

lemma grows_addRecurring:
  assumes "addRecurring appts r p = Inr r'"
  shows "grows r r'"
  using assms
proof (cases rule: addRecurring_cases)
  case (fulfilled apt)
  then show ?thesis by (simp add: grows_def)
next
  case (exempt ds)
  then show ?thesis by (simp add: grows_push)
next
  case (placed ds)
  then show ?thesis by (simp add: grows_placeItem)
qed

lemma grows_addRecurringAll:
  "addRecurringAll appts r ps = Inr r' \<Longrightarrow> grows r r'"
proof (induction ps arbitrary: r)
  case Nil
  then show ?case by (simp add: grows_refl)
next
  case (Cons p ps)
  from Cons.prems obtain r1 where 1: "addRecurring appts r p = Inr r1"
    and 2: "addRecurringAll appts r1 ps = Inr r'"
    by (auto split: sum.splits)
  from grows_trans[OF grows_addRecurring[OF 1] Cons.IH[OF 2]] show ?case .
qed

lemma grows_foldl:
  assumes "\<And>r x. grows r (f r x)"
  shows "grows r (foldl f r xs)"
proof (induction xs arbitrary: r)
  case Nil
  show ?case by (simp add: grows_refl)
next
  case (Cons x xs)
  from grows_trans[OF assms[of r x] Cons.IH[of "f r x"]] show ?case by simp
qed

lemma grows_nth:
  assumes "grows r r'" "k < length (placed r)"
  shows "k < length (placed r')" "placed r' ! k = placed r ! k"
  using assms by (auto simp: grows_def nth_append)

lemma grows_slots:
  assumes "grows r r'" "sl \<in> set (scheduledTimes r)"
  shows "sl \<in> set (scheduledTimes r')"
  using assms by (auto simp: grows_def)

text \<open>The step of a task of the list, with the states before and after it.\<close>

lemma addRecurringAll_step:
  assumes "addRecurringAll appts r ps = Inr rf" "p \<in> set ps"
  obtains r1 r2 where "addRecurring appts r1 p = Inr r2" "grows r2 rf"
  using assms
proof (induction ps arbitrary: r thesis)
  case Nil
  then show ?case by simp
next
  case (Cons q ps)
  from Cons.prems(2) obtain ra where 1: "addRecurring appts r q = Inr ra"
    and 2: "addRecurringAll appts ra ps = Inr rf"
    by (auto split: sum.splits)
  show ?case
  proof (cases "p = q")
    case True
    with 1 grows_addRecurringAll[OF 2] Cons.prems(1) show ?thesis by blast
  next
    case False
    with Cons.prems(3) have "p \<in> set ps" by simp
    from Cons.IH[OF _ 2 this] Cons.prems(1) show ?thesis by blast
  qed
qed

lemma bath_slot:
  "lookupSlot ''Having a bath''
     = Some \<lparr>slotTime = ''6:00 PM'', slotDuration = 30, slotSocial = Some False,
             slotExclusive = Some True, exemptFromEndTime = True\<rparr>"
  by code_simp

lemma bath_not_visitor_friendly: "''Having a bath'' \<notin> set visitorFriendlyTasks"
  by code_simp

lemma six_pm: "parseTimeToMinutes ''6:00 PM'' = 1080" "minutesToTimeString 1080 = ''6:00 PM''"
  by code_simp+

lemma bath_preferred:
  "recurringPreferred appts ''Having a bath''
     \<lparr>slotTime = ''6:00 PM'', slotDuration = 30, slotSocial = Some False,
      slotExclusive = Some True, exemptFromEndTime = True\<rparr> = 1080"
  by (simp add: recurringPreferred_def bath_not_visitor_friendly six_pm split: option.splits)

lemma bath_step:
  assumes "fulfilledBy appts ''Having a bath'' = None"
  shows "addRecurring appts r (i, ''Having a bath'')
     = Inr (pushPlaced r
             (recurringItem (i, ''Having a bath'')
                \<lparr>slotTime = ''6:00 PM'', slotDuration = 30, slotSocial = Some False,
                 slotExclusive = Some True, exemptFromEndTime = True\<rparr> 1080)
             1080 30 Exempt)"
  using assms by (simp add: addRecurring_def bath_slot bath_preferred)

lemma lookupSlot_total: "t \<notin> set objectPrototypeKeys \<Longrightarrow> lookupSlot t \<noteq> None"
  by (simp add: lookupSlot_def split: option.splits)

lemma addRecurring_returns:
  assumes "snd p \<notin> set objectPrototypeKeys"
  shows "\<exists>r'. addRecurring appts r p = Inr r'"
  using lookupSlot_total[OF assms]
  by (auto simp: addRecurring_def split: option.splits)

lemma addRecurringAll_returns:
  "\<forall>p \<in> set ps. snd p \<notin> set objectPrototypeKeys \<Longrightarrow> \<exists>r'. addRecurringAll appts r ps = Inr r'"
proof (induction ps arbitrary: r)
  case Nil
  show ?case by simp
next
  case (Cons p ps)
  then obtain r1 where 1: "addRecurring appts r p = Inr r1"
    using addRecurring_returns[of p appts r] by auto
  from Cons obtain r' where "addRecurringAll appts r1 ps = Inr r'" by fastforce
  with 1 show ?case by simp
qed

lemma run_returns:
  assumes "list_all (\<lambda>t. t \<notin> set objectPrototypeKeys) (recurringTasks prefs)"
  shows "\<exists>r. generateChecklistRun prefs acts age rnd sv w = Inr r"
proof -
  have "\<forall>p \<in> set (zip [0 ..< length (recurringTasks prefs)] (recurringTasks prefs)).
          snd p \<notin> set objectPrototypeKeys"
    using assms by (auto simp: list_all_iff dest: set_zip_rightD)
  from addRecurringAll_returns[OF this] obtain r0 where
    "addRecurringAll (appointmentsOf sv) (afterNaps prefs sv)
       (zip [0 ..< length (recurringTasks prefs)] (recurringTasks prefs)) = Inr r0"
    by blast
  then show ?thesis by (simp add: generateChecklistRun_def)
qed

subsection \<open>What overlaps the bath\<close>

lemma exemptInv_push:
  "exemptInv r \<Longrightarrow> (h = Exempt \<longrightarrow> task it = ''Having a bath'')
     \<Longrightarrow> exemptInv (pushPlaced r it m d h)"
  by (auto simp: exemptInv_def pushPlaced_def)

lemma exemptInv_placeItem: "exemptInv r \<Longrightarrow> exemptInv (placeItem r it p d)"
  unfolding placeItem_def by (rule exemptInv_push) simp_all

lemma exemptInv_addFeed: "exemptInv r \<Longrightarrow> exemptInv (addFeed r p)"
  unfolding addFeed_def by (rule exemptInv_push) simp_all

lemma exemptInv_addAppointment: "exemptInv r \<Longrightarrow> exemptInv (addAppointment r apt)"
  by (auto simp: exemptInv_def addAppointment_def split: option.splits)

lemma exemptInv_addNap: "exemptInv r \<Longrightarrow> exemptInv (addNap prefs r i)"
  unfolding addNap_def Let_def by (rule exemptInv_placeItem)

lemma exempt_slot_is_bath:
  "lookupSlot t = Some ds \<Longrightarrow> exemptFromEndTime ds \<Longrightarrow> t = ''Having a bath''"
  by (auto simp: lookupSlot_def recurringTimeSlots_def defaultRecurringSlot_def
      split: option.splits if_splits)

lemma exemptInv_addRecurring:
  assumes "exemptInv r" "addRecurring appts r p = Inr r'"
  shows "exemptInv r'"
  using assms(2)
proof (cases rule: addRecurring_cases)
  case (fulfilled apt)
  with assms(1) show ?thesis by (simp add: exemptInv_def fulfilledPlacement_def)
next
  case (exempt ds)
  from exempt_slot_is_bath[OF exempt(2,3)]
  have "task (recurringItem p ds (recurringPreferred appts (snd p) ds)) = ''Having a bath''"
    by (simp add: recurringItem_def newItem_def)
  with assms(1) exempt(4) show ?thesis by (simp add: exemptInv_push)
next
  case (placed ds)
  with assms(1) show ?thesis by (simp add: exemptInv_placeItem)
qed

lemma exemptInv_addRecurringAll:
  "exemptInv r \<Longrightarrow> addRecurringAll appts r ps = Inr r' \<Longrightarrow> exemptInv r'"
proof (induction ps arbitrary: r)
  case Nil
  then show ?case by simp
next
  case (Cons p ps)
  from Cons.prems(2) obtain r1 where 1: "addRecurring appts r p = Inr r1"
    and 2: "addRecurringAll appts r1 ps = Inr r'"
    by (auto split: sum.splits)
  from Cons.IH[OF exemptInv_addRecurring[OF Cons.prems(1) 1] 2] show ?case .
qed

lemma exemptInv_afterNaps: "exemptInv (afterNaps prefs sv)"
  unfolding afterNaps_def
proof (rule foldl_invariant[where P = exemptInv, OF _ exemptInv_addNap])
  show "exemptInv
     (foldl addAppointment
       (foldl addFeed \<lparr>scheduledTimes = [], placed = []\<rparr>
         (zip [0..<length (feedingTimes prefs)] (feedingTimes prefs)))
       (appointmentsOf sv))"
  proof (rule foldl_invariant[where P = exemptInv, OF _ exemptInv_addAppointment])
    show "exemptInv
       (foldl addFeed \<lparr>scheduledTimes = [], placed = []\<rparr>
         (zip [0..<length (feedingTimes prefs)] (feedingTimes prefs)))"
      by (rule foldl_invariant[where P = exemptInv, OF _ exemptInv_addFeed])
         (simp add: exemptInv_def)
  qed
qed

lemma exemptInv_run:
  assumes "generateChecklistRun prefs acts age rnd sv w = Inr r"
  shows "exemptInv r"
  using assms
proof (cases rule: run_split)
  case (1 r0)
  have "exemptInv r0" using exemptInv_addRecurringAll[OF exemptInv_afterNaps 1(1)] .
  then show ?thesis
    unfolding 1(2)
  proof (rule foldl_invariant[where P = exemptInv])
    fix r' x
    assume "exemptInv r'"
    then show "exemptInv (addBonus (appointmentsOf sv) r' x)"
      unfolding addBonus_def by (rule exemptInv_placeItem)
  qed
qed

text \<open>What is placed after an item that is not an anchor and overlaps it.\<close>

lemma later_overlap:
  assumes run: "generateChecklistRun prefs acts age rnd sv w = Inr r"
    and k: "how (placed r ! k) = Exempt"
    and j: "k < j" "j < length (placed r)"
    and ov: "overlaps (placed r ! k) (placed r ! j)"
  shows "how (placed r ! j) = Fulfilled \<or> how (placed r ! j) = Fallback
       \<or> (how (placed r ! j) = Exempt \<and> task (item (placed r ! j)) = ''Having a bath'')"
proof (cases "how (placed r ! j)")
  case Anchor
  with anchorsFirst_run[OF run] j have "how (placed r ! k) = Anchor"
    unfolding anchorsFirst_def by blast
  with k show ?thesis by simp
next
  case Found
  have "how (placed r ! k) \<noteq> Fulfilled" by (simp add: k)
  with runInv_run[OF run] j Found have "\<not> overlaps (placed r ! k) (placed r ! j)"
    unfolding runInv_def by blast
  with ov show ?thesis by simp
next
  case Exempt
  from j(2) have "placed r ! j \<in> set (placed r)" by simp
  with exemptInv_run[OF run] Exempt show ?thesis unfolding exemptInv_def by blast
qed simp_all

lemma bath_found:
  assumes run: "generateChecklistRun prefs acts age rnd sv w = Inr r"
    and idx: "index < length (recurringTasks prefs)"
    and bath: "recurringTasks prefs ! index = ''Having a bath''"
    and nf: "fulfilledBy (appointmentsOf sv) ''Having a bath'' = None"
  shows "\<exists>k < length (placed r).
           itemId (item (placed r ! k)) = ''recurring-'' @ numToString (int index)
         \<and> task (item (placed r ! k)) = ''Having a bath''
         \<and> suggestedTime (item (placed r ! k)) = Some ''6:00 PM''
         \<and> pStart (placed r ! k) = 1080 \<and> pDuration (placed r ! k) = 30
         \<and> how (placed r ! k) = Exempt
         \<and> \<lparr>start = 1080, end' = 1110\<rparr> \<in> set (scheduledTimes r)
         \<and> (\<forall>j. k < j \<and> j < length (placed r) \<and> overlaps (placed r ! k) (placed r ! j)
                \<longrightarrow> how (placed r ! j) = Fulfilled \<or> how (placed r ! j) = Fallback
                    \<or> (how (placed r ! j) = Exempt
                        \<and> task (item (placed r ! j)) = ''Having a bath''))"
  using run
proof (cases rule: run_split)
  case (1 r0)
  let ?ps = "zip [0 ..< length (recurringTasks prefs)] (recurringTasks prefs)"
  let ?slot = "\<lparr>slotTime = ''6:00 PM'', slotDuration = 30, slotSocial = Some False,
                slotExclusive = Some True, exemptFromEndTime = True\<rparr>"
  have "?ps ! index = (index, ''Having a bath'')" using idx bath by simp
  moreover have "index < length ?ps" using idx by simp
  ultimately have mem: "(index, ''Having a bath'') \<in> set ?ps" by (metis nth_mem)
  from addRecurringAll_step[OF 1(1) mem] obtain r1 r2 where
    step: "addRecurring (appointmentsOf sv) r1 (index, ''Having a bath'') = Inr r2"
    and g20: "grows r2 r0"
    by blast
  from step bath_step[OF nf, of r1 index]
  have r2: "r2 = pushPlaced r1 (recurringItem (index, ''Having a bath'') ?slot 1080) 1080 30 Exempt"
    by simp
  have g0: "grows r0 r" unfolding 1(2) by (rule grows_foldl) (rule grows_addBonus)
  have g: "grows r2 r" by (rule grows_trans[OF g20 g0])
  let ?k = "length (placed r1)"
  have k2: "?k < length (placed r2)"
    and p2: "placed r2 ! ?k = \<lparr>item = recurringItem (index, ''Having a bath'') ?slot 1080,
                 pStart = 1080, pDuration = 30, how = Exempt\<rparr>"
    and s2: "\<lparr>start = 1080, end' = 1110\<rparr> \<in> set (scheduledTimes r2)"
    by (simp_all add: r2 pushPlaced_def)
  from grows_nth[OF g k2] p2
  have k: "?k < length (placed r)"
    and p: "placed r ! ?k = \<lparr>item = recurringItem (index, ''Having a bath'') ?slot 1080,
                 pStart = 1080, pDuration = 30, how = Exempt\<rparr>"
    by simp_all
  have s: "\<lparr>start = 1080, end' = 1110\<rparr> \<in> set (scheduledTimes r)"
    by (rule grows_slots[OF g s2])
  have later: "how (placed r ! j) = Fulfilled \<or> how (placed r ! j) = Fallback
       \<or> (how (placed r ! j) = Exempt \<and> task (item (placed r ! j)) = ''Having a bath'')"
    if "?k < j" "j < length (placed r)" "overlaps (placed r ! ?k) (placed r ! j)" for j
  proof -
    have "how (placed r ! ?k) = Exempt" by (simp add: p)
    from later_overlap[OF run this that] show ?thesis .
  qed
  have fields: "itemId (item (placed r ! ?k)) = ''recurring-'' @ numToString (int index)"
    "task (item (placed r ! ?k)) = ''Having a bath''"
    "suggestedTime (item (placed r ! ?k)) = Some ''6:00 PM''"
    "pStart (placed r ! ?k) = 1080" "pDuration (placed r ! ?k) = 30" "how (placed r ! ?k) = Exempt"
    by (simp_all add: p recurringItem_def newItem_def six_pm)
  from k fields s later show ?thesis by blast
qed

text \<open>
  Claim C5, as amended. When the recurring tasks include \<open>Having a bath\<close> and no
  appointment fulfills it, every run that emits its items emits the bath item at its
  preferred time 6:00 PM (minute 1080) for 30 minutes: it is placed without
  \<open>findNextSlot\<close>, whatever the occupied intervals and the boundary. The interval from
  1080 to 1110 is registered into \<open>scheduledTimes\<close>, and every item that
  \<open>findNextSlot\<close> places later at a free slot avoids it: an item placed later overlaps
  the bath only if it is a recurring task anchored to the appointment that fulfills it,
  an item placed by the no-free-slot fallback, or another task named \<open>Having a bath\<close>.
  The run emits its items whenever no recurring task is named like a property that every
  object inherits.
\<close>

theorem bath_exempt:
  assumes "index < length (recurringTasks prefs)"
    and "recurringTasks prefs ! index = ''Having a bath''"
    and "fulfilledBy (appointmentsOf sv) ''Having a bath'' = None"
  shows "(list_all (\<lambda>t. t \<notin> set objectPrototypeKeys) (recurringTasks prefs)
            \<longrightarrow> (\<exists>r. generateChecklistRun prefs acts age rnd sv w = Inr r))
     \<and> (\<forall>r. generateChecklistRun prefs acts age rnd sv w = Inr r \<longrightarrow>
          (\<exists>k < length (placed r).
              itemId (item (placed r ! k)) = ''recurring-'' @ numToString (int index)
            \<and> task (item (placed r ! k)) = ''Having a bath''
            \<and> suggestedTime (item (placed r ! k)) = Some ''6:00 PM''
            \<and> pStart (placed r ! k) = 1080 \<and> pDuration (placed r ! k) = 30
            \<and> how (placed r ! k) = Exempt
            \<and> \<lparr>start = 1080, end' = 1110\<rparr> \<in> set (scheduledTimes r)
            \<and> (\<forall>j. k < j \<and> j < length (placed r) \<and> overlaps (placed r ! k) (placed r ! j)
                \<longrightarrow> how (placed r ! j) = Fulfilled \<or> how (placed r ! j) = Fallback
                    \<or> (how (placed r ! j) = Exempt
                        \<and> task (item (placed r ! j)) = ''Having a bath''))
            \<and> generateChecklist prefs acts age rnd sv w
                = Inr (sort_key sortKey (map item (placed r)))
            \<and> item (placed r ! k) \<in> set (sort_key sortKey (map item (placed r)))))"
proof -
  have out: "generateChecklist prefs acts age rnd sv w = Inr (sort_key sortKey (map item (placed r)))"
    if "generateChecklistRun prefs acts age rnd sv w = Inr r" for r
    using that by (simp add: generateChecklist_def)
  have "\<exists>k < length (placed r).
              itemId (item (placed r ! k)) = ''recurring-'' @ numToString (int index)
            \<and> task (item (placed r ! k)) = ''Having a bath''
            \<and> suggestedTime (item (placed r ! k)) = Some ''6:00 PM''
            \<and> pStart (placed r ! k) = 1080 \<and> pDuration (placed r ! k) = 30
            \<and> how (placed r ! k) = Exempt
            \<and> \<lparr>start = 1080, end' = 1110\<rparr> \<in> set (scheduledTimes r)
            \<and> (\<forall>j. k < j \<and> j < length (placed r) \<and> overlaps (placed r ! k) (placed r ! j)
                \<longrightarrow> how (placed r ! j) = Fulfilled \<or> how (placed r ! j) = Fallback
                    \<or> (how (placed r ! j) = Exempt
                        \<and> task (item (placed r ! j)) = ''Having a bath''))
            \<and> generateChecklist prefs acts age rnd sv w
                = Inr (sort_key sortKey (map item (placed r)))
            \<and> item (placed r ! k) \<in> set (sort_key sortKey (map item (placed r)))"
    if run: "generateChecklistRun prefs acts age rnd sv w = Inr r" for r
  proof -
    from bath_found[OF run assms] obtain k where k: "k < length (placed r)"
      and rest: "itemId (item (placed r ! k)) = ''recurring-'' @ numToString (int index)
         \<and> task (item (placed r ! k)) = ''Having a bath''
         \<and> suggestedTime (item (placed r ! k)) = Some ''6:00 PM''
         \<and> pStart (placed r ! k) = 1080 \<and> pDuration (placed r ! k) = 30
         \<and> how (placed r ! k) = Exempt
         \<and> \<lparr>start = 1080, end' = 1110\<rparr> \<in> set (scheduledTimes r)
         \<and> (\<forall>j. k < j \<and> j < length (placed r) \<and> overlaps (placed r ! k) (placed r ! j)
                \<longrightarrow> how (placed r ! j) = Fulfilled \<or> how (placed r ! j) = Fallback
                    \<or> (how (placed r ! j) = Exempt
                        \<and> task (item (placed r ! j)) = ''Having a bath''))"
      by blast
    from k have "item (placed r ! k) \<in> set (sort_key sortKey (map item (placed r)))" by simp
    with k rest out[OF run] show ?thesis by blast
  qed
  with run_returns[of prefs acts age rnd sv w] show ?thesis by blast
qed

text \<open>
  With the bath as the only recurring task and three bonus activities, the third bonus
  activity (160 minutes, preferred at 3:30 PM, minute 930) would run into the bath; it is
  placed at a free slot, 3:15 PM (minute 915), and ends before the bath starts.
\<close>

lemma outing_run:
  "map_sum id (\<lambda>r. map (\<lambda>p. (itemId (item p), pStart p, pDuration p, how p)) (placed r))
     (generateChecklistRun bathPreferences outingCatalog 6 zeroRandom exampleSurvey None)
   = Inr [(''feeding-0'', 480, 30, Anchor), (''feeding-1'', 720, 30, Anchor),
          (''nap-0'', 600, 30, Found), (''recurring-0'', 1080, 30, Exempt),
          (''bonus-0'', 570, 10, Found), (''bonus-1'', 810, 60, Found),
          (''bonus-2'', 915, 160, Found)]"
  by code_simp

theorem bath_exempt_witness:
  "0 < length (recurringTasks bathPreferences)
   \<and> recurringTasks bathPreferences ! 0 = ''Having a bath''
   \<and> fulfilledBy (appointmentsOf exampleSurvey) ''Having a bath'' = None
   \<and> list_all (\<lambda>t. t \<notin> set objectPrototypeKeys) (recurringTasks bathPreferences)
   \<and> bonusPreferred (appointmentsOf exampleSurvey) 2 museumVisit = 930
   \<and> (\<exists>r k. generateChecklistRun bathPreferences outingCatalog 6 zeroRandom exampleSurvey None
                = Inr r
          \<and> k < 6 \<and> 6 < length (placed r)
          \<and> task (item (placed r ! k)) = ''Having a bath''
          \<and> suggestedTime (item (placed r ! k)) = Some ''6:00 PM''
          \<and> pStart (placed r ! k) = 1080 \<and> pDuration (placed r ! k) = 30
          \<and> \<lparr>start = 1080, end' = 1110\<rparr> \<in> set (scheduledTimes r)
          \<and> itemId (item (placed r ! 6)) = ''bonus-2''
          \<and> how (placed r ! 6) = Found
          \<and> pStart (placed r ! 6) = 915 \<and> pDuration (placed r ! 6) = 160
          \<and> \<not> overlaps (placed r ! k) (placed r ! 6))"
proof -
  have 1: "0 < length (recurringTasks bathPreferences)" by (simp add: bathPreferences_def)
  have 2: "recurringTasks bathPreferences ! 0 = ''Having a bath''" by (simp add: bathPreferences_def)
  have 3: "fulfilledBy (appointmentsOf exampleSurvey) ''Having a bath'' = None" by code_simp
  have 4: "list_all (\<lambda>t. t \<notin> set objectPrototypeKeys) (recurringTasks bathPreferences)"
    by code_simp
  have 5: "bonusPreferred (appointmentsOf exampleSurvey) 2 museumVisit = 930" by code_simp
  note bx = bath_exempt[OF 1 2 3, of outingCatalog 6 zeroRandom None]
  from bx 4 obtain r
    where r: "generateChecklistRun bathPreferences outingCatalog 6 zeroRandom exampleSurvey None
                = Inr r"
    by blast
  from outing_run have pl: "map (\<lambda>p. (itemId (item p), pStart p, pDuration p, how p)) (placed r)
      = [(''feeding-0'', 480, 30, Anchor), (''feeding-1'', 720, 30, Anchor),
         (''nap-0'', 600, 30, Found), (''recurring-0'', 1080, 30, Exempt),
         (''bonus-0'', 570, 10, Found), (''bonus-1'', 810, 60, Found),
         (''bonus-2'', 915, 160, Found)]"
    by (simp add: r)
  have len: "length (placed r) = 7" using arg_cong[OF pl, of length] by simp
  have six: "6 < length (placed r)" "itemId (item (placed r ! 6)) = ''bonus-2''"
    "pStart (placed r ! 6) = 915" "pDuration (placed r ! 6) = 160" "how (placed r ! 6) = Found"
    using map_eq_nth[OF pl, of 6] by simp_all
  from bx r obtain k where k: "k < length (placed r)"
    and bath: "task (item (placed r ! k)) = ''Having a bath''"
      "suggestedTime (item (placed r ! k)) = Some ''6:00 PM''"
      "pStart (placed r ! k) = 1080" "pDuration (placed r ! k) = 30"
      "how (placed r ! k) = Exempt"
      "\<lparr>start = 1080, end' = 1110\<rparr> \<in> set (scheduledTimes r)"
    and later: "\<forall>j. k < j \<and> j < length (placed r) \<and> overlaps (placed r ! k) (placed r ! j)
                \<longrightarrow> how (placed r ! j) = Fulfilled \<or> how (placed r ! j) = Fallback
                    \<or> (how (placed r ! j) = Exempt
                        \<and> task (item (placed r ! j)) = ''Having a bath'')"
    by blast
  from bath(5) six(5) have "k \<noteq> 6" by auto
  with k len have k6: "k < 6" by simp
  with later six(1,5) have no: "\<not> overlaps (placed r ! k) (placed r ! 6)" by auto
  from r k6 six bath no have "\<exists>r k. generateChecklistRun bathPreferences outingCatalog 6 zeroRandom exampleSurvey None
                = Inr r
          \<and> k < 6 \<and> 6 < length (placed r)
          \<and> task (item (placed r ! k)) = ''Having a bath''
          \<and> suggestedTime (item (placed r ! k)) = Some ''6:00 PM''
          \<and> pStart (placed r ! k) = 1080 \<and> pDuration (placed r ! k) = 30
          \<and> \<lparr>start = 1080, end' = 1110\<rparr> \<in> set (scheduledTimes r)
          \<and> itemId (item (placed r ! 6)) = ''bonus-2''
          \<and> how (placed r ! 6) = Found
          \<and> pStart (placed r ! 6) = 915 \<and> pDuration (placed r ! 6) = 160
          \<and> \<not> overlaps (placed r ! k) (placed r ! 6)"
    by blast
  with 1 2 3 4 5 show ?thesis by blast
qed

text \<open>
  Claim C5 as stated fails: items placed after the bath do not all avoid its interval.
  With the recurring tasks \<open>Having a bath\<close> and \<open>Going for a walk\<close> and the
  appointment text \<open>walk at 6pm\<close>, no appointment fulfills the bath, the bath is
  emitted at 6:00 PM and the walk, anchored to its appointment, is emitted after it at
  6:00 PM for 45 minutes. With the appointment text \<open>friend 5-7pm, doctor 7am-5:30pm\<close> no slot is free,
  and the second bonus activity falls back to its preferred time, 6:00 PM, for 60
  minutes. A second task named \<open>Having a bath\<close> is placed at 6:00 PM as the first is.
\<close>

theorem bath_exempt_counterexample:
  "(case generateChecklistRun bathWalkPreferences [tummyTime] 6 zeroRandom walkAtSixSurvey None of
      Inl e \<Rightarrow> False
    | Inr r \<Rightarrow>
        fulfilledBy (appointmentsOf walkAtSixSurvey) ''Having a bath'' = None
        \<and> length (placed r) = 6
        \<and> task (item (placed r ! 3)) = ''Having a bath''
        \<and> suggestedTime (item (placed r ! 3)) = Some ''6:00 PM''
        \<and> pStart (placed r ! 3) = 1080 \<and> pDuration (placed r ! 3) = 30
        \<and> \<lparr>start = 1080, end' = 1110\<rparr> \<in> set (scheduledTimes r)
        \<and> itemId (item (placed r ! 4)) = ''recurring-1''
        \<and> task (item (placed r ! 4)) = ''Going for a walk (with walk)''
        \<and> suggestedTime (item (placed r ! 4)) = Some ''6:00 PM''
        \<and> pStart (placed r ! 4) = 1080 \<and> pDuration (placed r ! 4) = 45
        \<and> how (placed r ! 4) = Fulfilled
        \<and> overlaps (placed r ! 3) (placed r ! 4))
   \<and> (case generateChecklistRun bathPreferences [cafeVisit, brunchOuting] 6 zeroRandom
             fullDaySurvey None of
        Inl e \<Rightarrow> False
      | Inr r \<Rightarrow>
          fulfilledBy (appointmentsOf fullDaySurvey) ''Having a bath'' = None
          \<and> length (placed r) = 6
          \<and> task (item (placed r ! 3)) = ''Having a bath''
          \<and> pStart (placed r ! 3) = 1080 \<and> pDuration (placed r ! 3) = 30
          \<and> \<lparr>start = 1080, end' = 1110\<rparr> \<in> set (scheduledTimes r)
          \<and> itemId (item (placed r ! 5)) = ''bonus-1''
          \<and> suggestedTime (item (placed r ! 5)) = Some ''6:00 PM''
          \<and> pStart (placed r ! 5) = 1080 \<and> pDuration (placed r ! 5) = 60
          \<and> how (placed r ! 5) = Fallback
          \<and> overlaps (placed r ! 3) (placed r ! 5))
   \<and> (case generateChecklistRun twoBathsPreferences [tummyTime] 6 zeroRandom exampleSurvey None of
        Inl e \<Rightarrow> False
      | Inr r \<Rightarrow>
          length (placed r) = 6
          \<and> itemId (item (placed r ! 3)) = ''recurring-0''
          \<and> task (item (placed r ! 3)) = ''Having a bath''
          \<and> pStart (placed r ! 3) = 1080 \<and> pDuration (placed r ! 3) = 30
          \<and> itemId (item (placed r ! 4)) = ''recurring-1''
          \<and> task (item (placed r ! 4)) = ''Having a bath''
          \<and> pStart (placed r ! 4) = 1080 \<and> pDuration (placed r ! 4) = 30
          \<and> how (placed r ! 4) = Exempt
          \<and> overlaps (placed r ! 3) (placed r ! 4))"
  by code_simp

end

